theory Spec2Isabelle
  imports Main "HOL-Library.Word" "HOL-Library.Sublist"
begin

section \<open>Machine integers\<close>

text \<open>
  The counters of the ring buffer are \<^verbatim>\<open>std::atomic<size_t>\<close>; \<^verbatim>\<open>EmplacePush\<close> copies
  one of them into an \<^verbatim>\<open>int\<close>. The model fixes the LP64 data model of the build
  (\<^verbatim>\<open>size_t\<close> 64 bits unsigned, \<^verbatim>\<open>int\<close> 32 bits two's complement). All atomic accesses
  of the source use the default sequentially consistent order, so an interleaving of
  atomic steps is the semantics of the counters.
\<close>

type_synonym size_t = "64 word"
type_synonym c_int = "32 word"

definition int_of_size_t :: "size_t \<Rightarrow> c_int" where
  \<comment> \<open>the narrowing conversion of \<^verbatim>\<open>int old_read = read_counter_\<close>: the low 32 bits\<close>
  "int_of_size_t x = ucast x"

definition size_t_of_int :: "c_int \<Rightarrow> size_t" where
  \<comment> \<open>the conversion of an \<^verbatim>\<open>int\<close> operand to \<^verbatim>\<open>size_t\<close>: sign extension\<close>
  "size_t_of_int i = scast i"

section \<open>SPMCCircularBuffer\<close>

datatype fault = Abort | DivisionByZero | OutOfBounds

record 'a SPMCCircularBuffer =
  read_counter :: size_t
  write_counter :: size_t
  buf :: "'a list"
  max_size :: size_t
  mutex_read :: bool

text \<open>
  The constructor: \<^verbatim>\<open>make_unique<T[]>(size)\<close> value-initialises \<open>size\<close> slots (with the
  default element \<open>d\<close>), both counters start at 0, the mutex is free.
\<close>

definition new_buffer :: "size_t \<Rightarrow> 'a \<Rightarrow> 'a SPMCCircularBuffer" where
  "new_buffer sz d =
     \<lparr>read_counter = 0, write_counter = 0, buf = replicate (unat sz) d,
      max_size = sz, mutex_read = False\<rparr>"

text \<open>
  A slot access \<^verbatim>\<open>buf_[counter % max_size_]\<close>: the modulo traps when \<^verbatim>\<open>max_size_\<close> is 0, and
  the array access is checked against the allocated length, so that a fault of the source
  is a value of the model.
\<close>

definition slot_index :: "'a SPMCCircularBuffer \<Rightarrow> size_t \<Rightarrow> fault + nat" where
  "slot_index b c =
     (if max_size b = 0 then Inl DivisionByZero else Inr (unat (c mod max_size b)))"

definition slot_read :: "'a SPMCCircularBuffer \<Rightarrow> nat \<Rightarrow> fault + 'a" where
  "slot_read b i = (if i < length (buf b) then Inr (buf b ! i) else Inl OutOfBounds)"

definition slot_write ::
  "'a SPMCCircularBuffer \<Rightarrow> nat \<Rightarrow> 'a \<Rightarrow> fault + 'a SPMCCircularBuffer" where
  "slot_write b i v =
     (if i < length (buf b) then Inr (b\<lparr>buf := (buf b)[i := v]\<rparr>) else Inl OutOfBounds)"

definition Empty :: "'a SPMCCircularBuffer \<Rightarrow> bool" where
  "Empty b = (read_counter b = write_counter b)"

subsection \<open>The operations, statement by statement\<close>

text \<open>
  A thread inside an operation is at one of these program points; each carries the
  thread's local variables. One step is one statement of the source that touches shared
  memory. \<^verbatim>\<open>atomic::wait(old)\<close> returns only once the value differs from \<open>old\<close>, so a
  waiting thread has no step while the value is unchanged; \<^verbatim>\<open>notify_all\<close> then has no
  effect of its own. A thread that waits for the mutex has no step while it is held;
  a step of \<^verbatim>\<open>try_lock_for\<close> on a held mutex is the expiry of its timeout.
\<close>

datatype 'a pc =
    Idle
  | Push_check 'a            \<comment> \<open>line 82: the full test\<close>
  | Push_load 'a             \<comment> \<open>line 83: \<^verbatim>\<open>int old_read = read_counter_\<close>\<close>
  | Push_recheck 'a c_int    \<comment> \<open>line 84: same slot test\<close>
  | Push_wait 'a c_int       \<comment> \<open>line 85: \<^verbatim>\<open>read_counter_.wait(old_read)\<close>\<close>
  | Push_store 'a            \<comment> \<open>line 88: the slot is written\<close>
  | Push_incr                \<comment> \<open>line 89: \<^verbatim>\<open>write_counter_.fetch_add(1)\<close>\<close>
  | PopUnsafe_check          \<comment> \<open>line 105\<close>
  | PopUnsafe_read           \<comment> \<open>line 109: the slot is read\<close>
  | PopUnsafe_incr 'a        \<comment> \<open>line 110: \<^verbatim>\<open>read_counter_.fetch_add(1)\<close>\<close>
  | TryPopFor_lock           \<comment> \<open>line 128: \<^verbatim>\<open>try_lock_for\<close>\<close>
  | TryPopFor_check          \<comment> \<open>line 132\<close>
  | TryPopFor_take           \<comment> \<open>line 136: \<^verbatim>\<open>read_counter_.fetch_add(1) % max_size_\<close>\<close>
  | TryPopFor_read nat       \<comment> \<open>line 136: the slot at that index is read\<close>
  | Pop_lock                 \<comment> \<open>line 150\<close>
  | Pop_check                \<comment> \<open>line 152\<close>
  | Pop_load                 \<comment> \<open>line 153: \<^verbatim>\<open>old_write = write_counter_.load()\<close>\<close>
  | Pop_recheck size_t       \<comment> \<open>line 154\<close>
  | Pop_wait size_t          \<comment> \<open>line 155: \<^verbatim>\<open>write_counter_.wait(old_write)\<close>\<close>
  | Pop_take                 \<comment> \<open>line 159: \<^verbatim>\<open>read_counter_.fetch_add(1) % max_size_\<close>\<close>
  | Pop_read nat             \<comment> \<open>line 159: the slot at that index is read\<close>
  | Done "'a option"         \<comment> \<open>the operation has returned (a pop: its value)\<close>
  | Crashed fault

fun thread_step ::
  "'a pc \<Rightarrow> 'a SPMCCircularBuffer \<Rightarrow> ('a pc \<times> 'a SPMCCircularBuffer) option" where
  "thread_step (Push_check v) b =
     Some (if write_counter b \<noteq> 0 \<and> write_counter b - read_counter b = max_size b
           then Push_load v else Push_store v, b)"
| "thread_step (Push_load v) b =
     Some (Push_recheck v (int_of_size_t (read_counter b)), b)"
| "thread_step (Push_recheck v old_read) b =
     Some (if max_size b = 0 then Crashed DivisionByZero
           else if write_counter b mod max_size b = size_t_of_int old_read mod max_size b
           then Push_wait v old_read else Push_store v, b)"
| "thread_step (Push_wait v old_read) b =
     (if read_counter b = size_t_of_int old_read then None else Some (Push_store v, b))"
| "thread_step (Push_store v) b =
     Some (case slot_index b (write_counter b) of
             Inl e \<Rightarrow> (Crashed e, b)
           | Inr i \<Rightarrow> (case slot_write b i v of
                        Inl e \<Rightarrow> (Crashed e, b)
                      | Inr b' \<Rightarrow> (Push_incr, b')))"
| "thread_step Push_incr b =
     Some (Done None, b\<lparr>write_counter := write_counter b + 1\<rparr>)"
| "thread_step PopUnsafe_check b =
     Some (if read_counter b \<ge> write_counter b then Crashed Abort else PopUnsafe_read, b)"
| "thread_step PopUnsafe_read b =
     Some (case slot_index b (read_counter b) of
             Inl e \<Rightarrow> (Crashed e, b)
           | Inr i \<Rightarrow> (case slot_read b i of
                        Inl e \<Rightarrow> (Crashed e, b)
                      | Inr element \<Rightarrow> (PopUnsafe_incr element, b)))"
| "thread_step (PopUnsafe_incr element) b =
     Some (Done (Some element), b\<lparr>read_counter := read_counter b + 1\<rparr>)"
| "thread_step TryPopFor_lock b =
     Some (if mutex_read b then (Done None, b)
           else (TryPopFor_check, b\<lparr>mutex_read := True\<rparr>))"
| "thread_step TryPopFor_check b =
     Some (if read_counter b \<ge> write_counter b
           then (Done None, b\<lparr>mutex_read := False\<rparr>) else (TryPopFor_take, b))"
| "thread_step TryPopFor_take b =
     Some (case slot_index b (read_counter b) of
             Inl e \<Rightarrow> (Crashed e, b\<lparr>read_counter := read_counter b + 1\<rparr>)
           | Inr i \<Rightarrow> (TryPopFor_read i, b\<lparr>read_counter := read_counter b + 1\<rparr>))"
| "thread_step (TryPopFor_read i) b =
     Some (case slot_read b i of
             Inl e \<Rightarrow> (Crashed e, b)
           | Inr element \<Rightarrow> (Done (Some element), b\<lparr>mutex_read := False\<rparr>))"
| "thread_step Pop_lock b =
     (if mutex_read b then None else Some (Pop_check, b\<lparr>mutex_read := True\<rparr>))"
| "thread_step Pop_check b =
     Some (if read_counter b \<ge> write_counter b then Pop_load else Pop_take, b)"
| "thread_step Pop_load b = Some (Pop_recheck (write_counter b), b)"
| "thread_step (Pop_recheck old_write) b =
     Some (if read_counter b \<ge> old_write then Pop_wait old_write else Pop_take, b)"
| "thread_step (Pop_wait old_write) b =
     (if write_counter b = old_write then None else Some (Pop_take, b))"
| "thread_step Pop_take b =
     Some (case slot_index b (read_counter b) of
             Inl e \<Rightarrow> (Crashed e, b\<lparr>read_counter := read_counter b + 1\<rparr>)
           | Inr i \<Rightarrow> (Pop_read i, b\<lparr>read_counter := read_counter b + 1\<rparr>))"
| "thread_step (Pop_read i) b =
     Some (case slot_read b i of
             Inl e \<Rightarrow> (Crashed e, b)
           | Inr element \<Rightarrow> (Done (Some element), b\<lparr>mutex_read := False\<rparr>))"
| "thread_step Idle b = None"
| "thread_step (Done r) b = None"
| "thread_step (Crashed e) b = None"

subsection \<open>Threads sharing one buffer\<close>

datatype 'a call = CallEmplacePush 'a | CallPopUnsafe | CallTryPopFor | CallPop

fun entry :: "'a call \<Rightarrow> 'a pc" where
  "entry (CallEmplacePush v) = Push_check v"
| "entry CallPopUnsafe = PopUnsafe_check"
| "entry CallTryPopFor = TryPopFor_lock"
| "entry CallPop = Pop_lock"

fun in_call :: "'a pc \<Rightarrow> bool" where
  "in_call Idle = False"
| "in_call (Done r) = False"
| "in_call (Crashed e) = True"
| "in_call p = True"

text \<open>
  The whole system: the shared buffer, the program point of every thread, the values
  pushed (in the order of the calls of the producer), the values returned by the
  consuming operations (in the order in which they return), and the fault that ended the
  process, if any (\<^verbatim>\<open>std::abort\<close> and a trap end every thread).
\<close>

record 'a system =
  shared :: "'a SPMCCircularBuffer"
  threads :: "nat \<Rightarrow> 'a pc"
  pushed :: "'a list"
  consumed :: "'a list"
  crash :: "fault option"

datatype 'a event = Call nat "'a call" | Step nat

fun sys_step :: "'a system \<Rightarrow> 'a event \<Rightarrow> 'a system" where
  "sys_step s (Call t c) =
     (if crash s \<noteq> None \<or> in_call (threads s t) then s
      else s\<lparr>threads := (threads s)(t := entry c),
             pushed := (case c of CallEmplacePush v \<Rightarrow> pushed s @ [v] | _ \<Rightarrow> pushed s)\<rparr>)"
| "sys_step s (Step t) =
     (if crash s \<noteq> None then s
      else case thread_step (threads s t) (shared s) of
        None \<Rightarrow> s
      | Some (p, b) \<Rightarrow>
          s\<lparr>shared := b, threads := (threads s)(t := p),
            consumed := (case p of Done (Some v) \<Rightarrow> consumed s @ [v] | _ \<Rightarrow> consumed s),
            crash := (case p of Crashed e \<Rightarrow> Some e | _ \<Rightarrow> None)\<rparr>)"

definition run :: "'a system \<Rightarrow> 'a event list \<Rightarrow> 'a system" where
  "run s es = foldl sys_step s es"

definition start :: "size_t \<Rightarrow> 'a \<Rightarrow> 'a system" where
  "start sz d =
     \<lparr>shared = new_buffer sz d, threads = (\<lambda>t. Idle), pushed = [], consumed = [],
      crash = None\<rparr>"

subsection \<open>The operations, run without interference\<close>

text \<open>
  What one call does when no other thread takes a step between its statements: it
  returns, it blocks (it waits on a counter or on the mutex, which only another thread
  can change), or it ends the process with a fault.
\<close>

datatype 'r outcome = Returns 'r | Blocks | Fails fault

definition store_and_publish ::
  "'a \<Rightarrow> 'a SPMCCircularBuffer \<Rightarrow> 'a SPMCCircularBuffer outcome" where
  \<comment> \<open>lines 88 and 89\<close>
  "store_and_publish v b =
     (case slot_index b (write_counter b) of
        Inl e \<Rightarrow> Fails e
      | Inr i \<Rightarrow> (case slot_write b i v of
                   Inl e \<Rightarrow> Fails e
                 | Inr b' \<Rightarrow> Returns (b'\<lparr>write_counter := write_counter b' + 1\<rparr>)))"

definition EmplacePush ::
  "'a \<Rightarrow> 'a SPMCCircularBuffer \<Rightarrow> 'a SPMCCircularBuffer outcome" where
  "EmplacePush v b =
     (if write_counter b \<noteq> 0 \<and> write_counter b - read_counter b = max_size b then
        (let old_read = int_of_size_t (read_counter b) in
         if max_size b = 0 then Fails DivisionByZero
         else if write_counter b mod max_size b = size_t_of_int old_read mod max_size b
         then (if read_counter b = size_t_of_int old_read then Blocks
               else store_and_publish v b)
         else store_and_publish v b)
      else store_and_publish v b)"

definition PopUnsafe ::
  "'a SPMCCircularBuffer \<Rightarrow> ('a \<times> 'a SPMCCircularBuffer) outcome" where
  "PopUnsafe b =
     (if read_counter b \<ge> write_counter b then Fails Abort
      else case slot_index b (read_counter b) of
        Inl e \<Rightarrow> Fails e
      | Inr i \<Rightarrow> (case slot_read b i of
                   Inl e \<Rightarrow> Fails e
                 | Inr element \<Rightarrow>
                     Returns (element, b\<lparr>read_counter := read_counter b + 1\<rparr>)))"

definition take_front ::
  "'a SPMCCircularBuffer \<Rightarrow> ('a \<times> 'a SPMCCircularBuffer) outcome" where
  \<comment> \<open>lines 136 and 159 (the counter is advanced, then the slot is read), and the
      release of the mutex on return\<close>
  "take_front b =
     (let b1 = b\<lparr>read_counter := read_counter b + 1\<rparr> in
      case slot_index b (read_counter b) of
        Inl e \<Rightarrow> Fails e
      | Inr i \<Rightarrow> (case slot_read b1 i of
                   Inl e \<Rightarrow> Fails e
                 | Inr element \<Rightarrow> Returns (element, b1\<lparr>mutex_read := False\<rparr>)))"

definition Pop ::
  "'a SPMCCircularBuffer \<Rightarrow> ('a \<times> 'a SPMCCircularBuffer) outcome" where
  "Pop b =
     (if mutex_read b then Blocks
      else if read_counter b \<ge> write_counter b then
        (let old_write = write_counter b in
         if read_counter b \<ge> old_write then Blocks else take_front b)
      else take_front b)"

text \<open>
  \<^verbatim>\<open>TryPopFor\<close> also reports for how long the call was blocked, in milliseconds. Its
  only blocking statement is \<^verbatim>\<open>try_lock_for(limit_ms)\<close>, which returns at once on a free
  mutex and after \<open>limit_ms\<close> on a mutex that stays held.
\<close>

definition TryPopFor ::
  "nat \<Rightarrow> 'a SPMCCircularBuffer \<Rightarrow> (('a option \<times> nat) \<times> 'a SPMCCircularBuffer) outcome"
  where
  "TryPopFor limit_ms b =
     (if mutex_read b then Returns ((None, limit_ms), b)
      else if read_counter b \<ge> write_counter b then Returns ((None, 0), b)
      else case take_front b of
        Returns (element, b') \<Rightarrow> Returns ((Some element, 0), b')
      | Blocks \<Rightarrow> Blocks
      | Fails e \<Rightarrow> Fails e)"

text \<open>A thread running alone for at most \<open>n\<close> steps.\<close>

fun solo :: "nat \<Rightarrow> 'a pc \<Rightarrow> 'a SPMCCircularBuffer \<Rightarrow> 'a pc \<times> 'a SPMCCircularBuffer" where
  "solo 0 p b = (p, b)"
| "solo (Suc n) p b =
     (case thread_step p b of None \<Rightarrow> (p, b) | Some (p', b') \<Rightarrow> solo n p' b')"

text \<open>A buffer as its constructor leaves it, for a capacity that is not 0.\<close>

definition wf_buffer :: "'a SPMCCircularBuffer \<Rightarrow> bool" where
  "wf_buffer b = (max_size b \<noteq> 0 \<and> length (buf b) = unat (max_size b))"

text \<open>
  The invariant of the data model: the number of produced and not yet consumed items is
  between 0 and the capacity.
\<close>

definition capacity_inv :: "'a SPMCCircularBuffer \<Rightarrow> bool" where
  "capacity_inv b =
     (read_counter b \<le> write_counter b \<and>
      unat (write_counter b - read_counter b) \<le> unat (max_size b))"

text \<open>
  A program point is consistent with the buffer when the slot index it has computed is
  within the array, and it is not the point after a trap.
\<close>

fun pc_ok :: "'a SPMCCircularBuffer \<Rightarrow> 'a pc \<Rightarrow> bool" where
  "pc_ok b (Pop_read i) = (i < length (buf b))"
| "pc_ok b (TryPopFor_read i) = (i < length (buf b))"
| "pc_ok b (Crashed e) = (e = Abort)"
| "pc_ok b p = True"

definition sys_ok :: "'a system \<Rightarrow> bool" where
  "sys_ok s =
     (wf_buffer (shared s) \<and> (\<forall>t. pc_ok (shared s) (threads s t)) \<and>
      crash s \<noteq> Some DivisionByZero \<and> crash s \<noteq> Some OutOfBounds)"

text \<open>Calls made one after the other by a single thread, each run to its end.\<close>

fun call_seq :: "'a call \<Rightarrow> 'a SPMCCircularBuffer \<Rightarrow> 'a SPMCCircularBuffer outcome" where
  "call_seq (CallEmplacePush v) b = EmplacePush v b"
| "call_seq CallPopUnsafe b =
     (case PopUnsafe b of
        Returns (v, b') \<Rightarrow> Returns b' | Blocks \<Rightarrow> Blocks | Fails e \<Rightarrow> Fails e)"
| "call_seq CallTryPopFor b =
     (case TryPopFor 0 b of
        Returns (r, b') \<Rightarrow> Returns b' | Blocks \<Rightarrow> Blocks | Fails e \<Rightarrow> Fails e)"
| "call_seq CallPop b =
     (case Pop b of
        Returns (v, b') \<Rightarrow> Returns b' | Blocks \<Rightarrow> Blocks | Fails e \<Rightarrow> Fails e)"

fun calls :: "'a call list \<Rightarrow> 'a SPMCCircularBuffer \<Rightarrow> 'a SPMCCircularBuffer outcome" where
  "calls [] b = Returns b"
| "calls (c # cs) b =
     (case call_seq c b of
        Returns b' \<Rightarrow> calls cs b' | Blocks \<Rightarrow> Blocks | Fails e \<Rightarrow> Fails e)"

text \<open>
  A capacity 1 buffer, the producer (thread 0) and one consumer (thread 1): the first
  push completes, \<^verbatim>\<open>Pop\<close> takes the lock and advances \<^verbatim>\<open>read_counter_\<close>, the second push
  runs from its first to its last statement, and only then \<^verbatim>\<open>Pop\<close> reads its slot.
\<close>

definition overtaking_schedule :: "nat event list" where
  "overtaking_schedule =
     [Call 0 (CallEmplacePush 1), Step 0, Step 0, Step 0,
      Call 1 CallPop, Step 1, Step 1, Step 1,
      Call 0 (CallEmplacePush 2), Step 0, Step 0, Step 0,
      Step 1]"


section \<open>The event loop of the Scheduler\<close>

text \<open>
  A task is a due instant (\<^verbatim>\<open>std::time_t\<close>, only ever compared) and a callable.
\<close>

type_synonym time_t = int

record 'f Task =
  timestamp :: time_t
  func :: 'f

definition due :: "'f Task \<Rightarrow> time_t \<Rightarrow> bool" where
  \<comment> \<open>line 310: \<^verbatim>\<open>it->timestamp <= timestamp_now\<close>\<close>
  "due t timestamp_now = (timestamp t \<le> timestamp_now)"

text \<open>
  Lines 300 to 302: if the ingress buffer is not empty, one task is popped with
  \<^verbatim>\<open>PopUnsafe\<close> and pushed to the front of the pending list.
\<close>

definition drain ::
  "'f Task list \<Rightarrow> 'f Task SPMCCircularBuffer \<Rightarrow>
   ('f Task list \<times> 'f Task SPMCCircularBuffer) outcome" where
  "drain ts b =
     (if \<not> Empty b then
        (case PopUnsafe b of
           Returns (t, b') \<Rightarrow> Returns (t # ts, b')
         | Blocks \<Rightarrow> Blocks
         | Fails e \<Rightarrow> Fails e)
      else Returns (ts, b))"

text \<open>
  Lines 306 to 314, the scan. The wall clock is read once for every task visited:
  \<open>clock k\<close> is the \<open>k\<close>-th reading of \<^verbatim>\<open>system_clock::now()\<close> made by the loop thread and
  \<open>n\<close> counts the readings made so far. An iterator is the position \<open>i\<close> of its task in
  the list. \<^verbatim>\<open>pool_.AddTask\<close> is recorded as the list of the callables handed to the pool,
  in the order of the calls (the call itself may wait for room in the queue of the pool).
\<close>

fun scan ::
  "(nat \<Rightarrow> time_t) \<Rightarrow> nat \<Rightarrow> nat \<Rightarrow> 'f Task list \<Rightarrow> nat list \<Rightarrow> 'f list \<Rightarrow>
   nat \<times> nat list \<times> 'f list" where
  "scan clock n i [] to_remove handed = (n, to_remove, handed)"
| "scan clock n i (t # rest) to_remove handed =
     (if due t (clock n)
      then scan clock (Suc n) (Suc i) rest (i # to_remove) (handed @ [func t])
      else scan clock (Suc n) (Suc i) rest to_remove handed)"

text \<open>
  Lines 316 to 320: the iterators on the stack are erased from its top. The positions
  on the stack decrease from the top, so erasing one leaves the others in place.
\<close>

fun erase_all :: "nat list \<Rightarrow> 'a list \<Rightarrow> 'a list" where
  "erase_all [] ts = ts"
| "erase_all (it # to_remove) ts = erase_all to_remove (take it ts @ drop (Suc it) ts)"

text \<open>
  One iteration of the loop of \<^verbatim>\<open>EventLoop\<close>: the new count of clock readings, the new
  pending list, the new ingress buffer and the callables handed over by this scan.
\<close>

definition EventLoop_body ::
  "(nat \<Rightarrow> time_t) \<Rightarrow> nat \<Rightarrow> 'f Task list \<Rightarrow> 'f Task SPMCCircularBuffer \<Rightarrow>
   (nat \<times> 'f Task list \<times> 'f Task SPMCCircularBuffer \<times> 'f list) outcome" where
  "EventLoop_body clock n ts b =
     (case drain ts b of
        Returns (ts1, b1) \<Rightarrow>
          (case scan clock n 0 ts1 [] [] of
             (n', to_remove, handed) \<Rightarrow> Returns (n', erase_all to_remove ts1, b1, handed))
      | Blocks \<Rightarrow> Blocks
      | Fails e \<Rightarrow> Fails e)"

text \<open>\<open>k\<close> iterations, with the callables handed over by each of the \<open>k\<close> scans.\<close>

fun EventLoop_iterations ::
  "nat \<Rightarrow> (nat \<Rightarrow> time_t) \<Rightarrow> nat \<Rightarrow> 'f Task list \<Rightarrow> 'f Task SPMCCircularBuffer \<Rightarrow>
   (nat \<times> 'f Task list \<times> 'f Task SPMCCircularBuffer \<times> 'f list list) outcome" where
  "EventLoop_iterations 0 clock n ts b = Returns (n, ts, b, [])"
| "EventLoop_iterations (Suc k) clock n ts b =
     (case EventLoop_body clock n ts b of
        Returns (n1, ts1, b1, handed) \<Rightarrow>
          (case EventLoop_iterations k clock n1 ts1 b1 of
             Returns (n2, ts2, b2, hs) \<Rightarrow> Returns (n2, ts2, b2, handed # hs)
           | Blocks \<Rightarrow> Blocks
           | Fails e \<Rightarrow> Fails e)
      | Blocks \<Rightarrow> Blocks
      | Fails e \<Rightarrow> Fails e)"

text \<open>
  The positions of a pending list whose tasks are due, and are not due, when the scan
  that starts with the \<open>n\<close>-th reading of the clock visits them.
\<close>

definition due_at :: "(nat \<Rightarrow> time_t) \<Rightarrow> nat \<Rightarrow> 'f Task list \<Rightarrow> nat list" where
  "due_at clock n ts = filter (\<lambda>i. due (ts ! i) (clock (n + i))) [0..<length ts]"

definition not_due_at :: "(nat \<Rightarrow> time_t) \<Rightarrow> nat \<Rightarrow> 'f Task list \<Rightarrow> nat list" where
  "not_due_at clock n ts = filter (\<lambda>i. \<not> due (ts ! i) (clock (n + i))) [0..<length ts]"

text \<open>
  The items a buffer holds, from the oldest (at \<^verbatim>\<open>read_counter_\<close>) to the newest: the
  ingress order of the tasks that wait in the ingress buffer.
\<close>

definition contents :: "'a SPMCCircularBuffer \<Rightarrow> 'a list" where
  "contents b =
     map (\<lambda>k. buf b ! unat ((read_counter b + of_nat k) mod max_size b))
       [0..<unat (write_counter b - read_counter b)]"

text \<open>
  An example: three tasks, all due at 5, wait in an ingress buffer of capacity 4; the
  clock shows 0 for its first six readings and 10 from then on.
\<close>

definition example_ingress :: "string Task SPMCCircularBuffer" where
  "example_ingress =
     \<lparr>read_counter = 0, write_counter = 3,
      buf = [\<lparr>timestamp = 5, func = ''a''\<rparr>, \<lparr>timestamp = 5, func = ''b''\<rparr>,
             \<lparr>timestamp = 5, func = ''c''\<rparr>, \<lparr>timestamp = 0, func = ''''\<rparr>],
      max_size = 4, mutex_read = False\<rparr>"

definition example_clock :: "nat \<Rightarrow> time_t" where
  "example_clock k = (if k < 6 then 0 else 10)"


section \<open>The life cycle of Scheduler and ThreadPool\<close>

text \<open>
  The threads of one scheduler: the controlling thread, which calls \<^verbatim>\<open>Add\<close>, \<^verbatim>\<open>Run\<close> and
  \<^verbatim>\<open>Shutdown\<close> and destroys the object, the loop thread and the workers of the pool. A step
  is one statement of the source, a call of a buffer operation counting as one statement
  (the operations are those of the section before, run without interference). Every
  interleaving of the steps is a run; a thread that waits (in \<^verbatim>\<open>join\<close>, or for room in a
  full buffer) has no step.

  A \<^verbatim>\<open>std::thread\<close> handle is not joinable (\<open>NotAThread\<close>), or it stands for a thread whose
  function is running or has returned.
\<close>

datatype 'p thread = NotAThread | Running 'p | Finished

datatype loop_pc =
    L_guard                  \<comment> \<open>line 299: \<^verbatim>\<open>!break_ || !tasks_.empty()\<close>\<close>
  | L_guard_buffer           \<comment> \<open>line 299: \<^verbatim>\<open>|| !tasks_buffer_.Empty()\<close>\<close>
  | L_drain_check            \<comment> \<open>line 300\<close>
  | L_drain_pop              \<comment> \<open>line 301\<close>
  | L_scan nat "nat list"    \<comment> \<open>lines 306 to 310: the iterator and \<^verbatim>\<open>to_remove\<close>\<close>
  | L_add nat "nat list"     \<comment> \<open>lines 311 and 312\<close>
  | L_erase "nat list"       \<comment> \<open>lines 316 to 320\<close>

datatype 'f worker_pc =
    W_guard                  \<comment> \<open>line 113: \<^verbatim>\<open>!break_\<close>\<close>
  | W_guard_buffer           \<comment> \<open>line 113: \<^verbatim>\<open>|| !tasks_buffer_.Empty()\<close>\<close>
  | W_pop                    \<comment> \<open>line 115: \<^verbatim>\<open>TryPopFor(500ms)\<close>\<close>
  | W_invoke 'f              \<comment> \<open>line 118\<close>

text \<open>The statements of the controlling thread, and the calls they make up.\<close>

datatype 'f stmt =
    Add_push "'f Task"       \<comment> \<open>Scheduler::Add, line 250\<close>
  | Run_break                \<comment> \<open>Scheduler::Run, line 280\<close>
  | Run_thread               \<comment> \<open>line 281: \<^verbatim>\<open>event_loop_thread_ = std::thread(...)\<close>\<close>
  | Shutdown_break           \<comment> \<open>Scheduler::Shutdown, line 265\<close>
  | Shutdown_join            \<comment> \<open>lines 266 to 268\<close>
  | Pool_AddTask_push 'f     \<comment> \<open>ThreadPool::AddTask, line 71\<close>
  | Pool_Run_break           \<comment> \<open>ThreadPool::Run, line 81\<close>
  | Pool_Run_spawn nat       \<comment> \<open>lines 83 to 85, with the loop counter\<close>
  | Pool_Shutdown_break      \<comment> \<open>ThreadPool::Shutdown, line 95\<close>
  | Pool_Shutdown_join nat   \<comment> \<open>lines 97 to 99, with the position in \<^verbatim>\<open>threads_\<close>\<close>
  | Pool_Shutdown_clear      \<comment> \<open>line 101\<close>
  | Thread_destroy           \<comment> \<open>the destructor of \<^verbatim>\<open>event_loop_thread_\<close>\<close>

datatype 'f api =
    Add 'f time_t | Run | Shutdown | Destroy
  | Pool_AddTask 'f | Pool_Run | Pool_Shutdown

text \<open>
  \<^verbatim>\<open>~ThreadPool\<close> is \<^verbatim>\<open>Shutdown\<close>. \<^verbatim>\<open>~Scheduler\<close> calls \<^verbatim>\<open>Shutdown\<close> and then destroys the
  members in the reverse order of their declaration: the pool (its \<^verbatim>\<open>Shutdown\<close> again)
  and, last, the thread handle.
\<close>

fun statements :: "'f api \<Rightarrow> 'f stmt list" where
  "statements (Add f t) = [Add_push \<lparr>timestamp = t, func = f\<rparr>]"
| "statements Run = [Run_break, Run_thread, Pool_Run_break, Pool_Run_spawn 0]"
| "statements Shutdown =
     [Shutdown_break, Shutdown_join,
      Pool_Shutdown_break, Pool_Shutdown_join 0, Pool_Shutdown_clear]"
| "statements Destroy =
     [Shutdown_break, Shutdown_join,
      Pool_Shutdown_break, Pool_Shutdown_join 0, Pool_Shutdown_clear,
      Pool_Shutdown_break, Pool_Shutdown_join 0, Pool_Shutdown_clear,
      Thread_destroy]"
| "statements (Pool_AddTask f) = [Pool_AddTask_push f]"
| "statements Pool_Run = [Pool_Run_break, Pool_Run_spawn 0]"
| "statements Pool_Shutdown =
     [Pool_Shutdown_break, Pool_Shutdown_join 0, Pool_Shutdown_clear]"

datatype halt = Faulted fault | Terminated

text \<open>
  The state: the members of \<^verbatim>\<open>Scheduler\<close> and of its \<^verbatim>\<open>ThreadPool\<close>, the statements the
  controlling thread has still to execute in its current call, what ended the process
  if anything did, and three records of what has happened that no step reads: the
  callables handed to the pool, the callables invoked by the workers, and the number of
  threads joined.
\<close>

record 'f world =
  break_flag :: bool
  event_loop_thread :: "loop_pc thread"
  tasks :: "'f Task list"
  tasks_buffer :: "'f Task SPMCCircularBuffer"
  threads_amount :: nat
  pool_threads :: "'f worker_pc thread list"
  pool_tasks_buffer :: "'f SPMCCircularBuffer"
  pool_break :: bool
  todo :: "'f stmt list"
  halted :: "halt option"
  handed_over :: "'f list"
  executed :: "'f list"
  joins :: nat

text \<open>
  The constructor. \<^verbatim>\<open>std::atomic<bool> break_\<close> has no initialiser; its default
  constructor initialises it to \<^verbatim>\<open>false\<close> (C++20, the standard of the build). \<open>nofunc\<close> is
  the empty \<^verbatim>\<open>std::function\<close> of the value-initialised slots.
\<close>

definition new_Scheduler :: "size_t \<Rightarrow> nat \<Rightarrow> 'f \<Rightarrow> 'f world" where
  "new_Scheduler buffer_size threads_count nofunc =
     \<lparr>break_flag = False, event_loop_thread = NotAThread, tasks = [],
      tasks_buffer = new_buffer buffer_size \<lparr>timestamp = 0, func = nofunc\<rparr>,
      threads_amount = threads_count, pool_threads = [],
      pool_tasks_buffer = new_buffer buffer_size nofunc, pool_break = False,
      todo = [], halted = None, handed_over = [], executed = [], joins = 0\<rparr>"

text \<open>
  A statement of the controlling thread, with the statements \<open>rest\<close> that follow it.
  Assigning to a joinable \<^verbatim>\<open>std::thread\<close> and destroying one call \<^verbatim>\<open>std::terminate\<close>;
  \<^verbatim>\<open>join\<close> returns once the thread function has returned, and throws on a handle that is
  not joinable.
\<close>

fun ctl_stmt :: "'f stmt \<Rightarrow> 'f stmt list \<Rightarrow> 'f world \<Rightarrow> 'f world option" where
  "ctl_stmt (Add_push t) rest w =
     (case EmplacePush t (tasks_buffer w) of
        Returns b \<Rightarrow> Some (w\<lparr>tasks_buffer := b, todo := rest\<rparr>)
      | Blocks \<Rightarrow> None
      | Fails e \<Rightarrow> Some (w\<lparr>halted := Some (Faulted e)\<rparr>))"
| "ctl_stmt Run_break rest w = Some (w\<lparr>break_flag := False, todo := rest\<rparr>)"
| "ctl_stmt Run_thread rest w =
     (case event_loop_thread w of
        NotAThread \<Rightarrow> Some (w\<lparr>event_loop_thread := Running L_guard, todo := rest\<rparr>)
      | _ \<Rightarrow> Some (w\<lparr>halted := Some Terminated\<rparr>))"
| "ctl_stmt Shutdown_break rest w = Some (w\<lparr>break_flag := True, todo := rest\<rparr>)"
| "ctl_stmt Shutdown_join rest w =
     (case event_loop_thread w of
        NotAThread \<Rightarrow> Some (w\<lparr>todo := rest\<rparr>)
      | Running p \<Rightarrow> None
      | Finished \<Rightarrow>
          Some (w\<lparr>event_loop_thread := NotAThread, joins := Suc (joins w), todo := rest\<rparr>))"
| "ctl_stmt (Pool_AddTask_push f) rest w =
     (case EmplacePush f (pool_tasks_buffer w) of
        Returns b \<Rightarrow> Some (w\<lparr>pool_tasks_buffer := b, todo := rest\<rparr>)
      | Blocks \<Rightarrow> None
      | Fails e \<Rightarrow> Some (w\<lparr>halted := Some (Faulted e)\<rparr>))"
| "ctl_stmt Pool_Run_break rest w = Some (w\<lparr>pool_break := False, todo := rest\<rparr>)"
| "ctl_stmt (Pool_Run_spawn i) rest w =
     (if i < threads_amount w
      then Some (w\<lparr>pool_threads := pool_threads w @ [Running W_guard],
                  todo := Pool_Run_spawn (Suc i) # rest\<rparr>)
      else Some (w\<lparr>todo := rest\<rparr>))"
| "ctl_stmt Pool_Shutdown_break rest w = Some (w\<lparr>pool_break := True, todo := rest\<rparr>)"
| "ctl_stmt (Pool_Shutdown_join i) rest w =
     (if i < length (pool_threads w) then
        (case pool_threads w ! i of
           NotAThread \<Rightarrow> Some (w\<lparr>halted := Some Terminated\<rparr>)
         | Running p \<Rightarrow> None
         | Finished \<Rightarrow>
             Some (w\<lparr>pool_threads := (pool_threads w)[i := NotAThread],
                     joins := Suc (joins w),
                     todo := Pool_Shutdown_join (Suc i) # rest\<rparr>))
      else Some (w\<lparr>todo := rest\<rparr>))"
| "ctl_stmt Pool_Shutdown_clear rest w = Some (w\<lparr>pool_threads := [], todo := rest\<rparr>)"
| "ctl_stmt Thread_destroy rest w =
     (case event_loop_thread w of
        NotAThread \<Rightarrow> Some (w\<lparr>todo := rest\<rparr>)
      | _ \<Rightarrow> Some (w\<lparr>halted := Some Terminated\<rparr>))"

definition ctl_step :: "'f world \<Rightarrow> 'f world option" where
  "ctl_step w = (case todo w of [] \<Rightarrow> None | s # rest \<Rightarrow> ctl_stmt s rest w)"

text \<open>
  The loop thread, \<^verbatim>\<open>Scheduler::EventLoop\<close>; \<open>now\<close> is what the clock shows if this step
  reads it.
\<close>

fun loop_pc_step :: "time_t \<Rightarrow> loop_pc \<Rightarrow> 'f world \<Rightarrow> 'f world option" where
  "loop_pc_step now L_guard w =
     Some (w\<lparr>event_loop_thread :=
               Running (if \<not> break_flag w \<or> tasks w \<noteq> [] then L_drain_check
                        else L_guard_buffer)\<rparr>)"
| "loop_pc_step now L_guard_buffer w =
     Some (w\<lparr>event_loop_thread :=
               (if \<not> Empty (tasks_buffer w) then Running L_drain_check else Finished)\<rparr>)"
| "loop_pc_step now L_drain_check w =
     Some (w\<lparr>event_loop_thread :=
               Running (if \<not> Empty (tasks_buffer w) then L_drain_pop else L_scan 0 [])\<rparr>)"
| "loop_pc_step now L_drain_pop w =
     (case PopUnsafe (tasks_buffer w) of
        Returns (t, b) \<Rightarrow>
          Some (w\<lparr>tasks := t # tasks w, tasks_buffer := b,
                  event_loop_thread := Running (L_scan 0 [])\<rparr>)
      | Blocks \<Rightarrow> None
      | Fails e \<Rightarrow> Some (w\<lparr>halted := Some (Faulted e)\<rparr>))"
| "loop_pc_step now (L_scan i to_remove) w =
     Some (w\<lparr>event_loop_thread :=
               Running (if i < length (tasks w)
                        then (if due (tasks w ! i) now then L_add i to_remove
                              else L_scan (Suc i) to_remove)
                        else L_erase to_remove)\<rparr>)"
| "loop_pc_step now (L_add i to_remove) w =
     (case EmplacePush (func (tasks w ! i)) (pool_tasks_buffer w) of
        Returns b \<Rightarrow>
          Some (w\<lparr>pool_tasks_buffer := b,
                  handed_over := handed_over w @ [func (tasks w ! i)],
                  event_loop_thread := Running (L_scan (Suc i) (i # to_remove))\<rparr>)
      | Blocks \<Rightarrow> None
      | Fails e \<Rightarrow> Some (w\<lparr>halted := Some (Faulted e)\<rparr>))"
| "loop_pc_step now (L_erase to_remove) w =
     Some (w\<lparr>tasks := erase_all to_remove (tasks w), event_loop_thread := Running L_guard\<rparr>)"

definition loop_step :: "time_t \<Rightarrow> 'f world \<Rightarrow> 'f world option" where
  "loop_step now w =
     (case event_loop_thread w of Running p \<Rightarrow> loop_pc_step now p w | _ \<Rightarrow> None)"

text \<open>Worker \<open>j\<close> of the pool, \<^verbatim>\<open>ThreadPool::Worker\<close>.\<close>

fun worker_pc_step :: "nat \<Rightarrow> 'f worker_pc \<Rightarrow> 'f world \<Rightarrow> 'f world option" where
  "worker_pc_step j W_guard w =
     Some (w\<lparr>pool_threads :=
               (pool_threads w)[j := Running (if \<not> pool_break w then W_pop
                                             else W_guard_buffer)]\<rparr>)"
| "worker_pc_step j W_guard_buffer w =
     Some (w\<lparr>pool_threads :=
               (pool_threads w)[j := (if \<not> Empty (pool_tasks_buffer w) then Running W_pop
                                     else Finished)]\<rparr>)"
| "worker_pc_step j W_pop w =
     (case TryPopFor 500 (pool_tasks_buffer w) of
        Returns ((task, waited), b) \<Rightarrow>
          Some (w\<lparr>pool_tasks_buffer := b,
                  pool_threads :=
                    (pool_threads w)[j := Running (case task of None \<Rightarrow> W_guard
                                                  | Some f \<Rightarrow> W_invoke f)]\<rparr>)
      | Blocks \<Rightarrow> None
      | Fails e \<Rightarrow> Some (w\<lparr>halted := Some (Faulted e)\<rparr>))"
| "worker_pc_step j (W_invoke f) w =
     Some (w\<lparr>executed := executed w @ [f],
             pool_threads := (pool_threads w)[j := Running W_guard]\<rparr>)"

definition worker_step :: "nat \<Rightarrow> 'f world \<Rightarrow> 'f world option" where
  "worker_step j w =
     (if j < length (pool_threads w)
      then (case pool_threads w ! j of Running p \<Rightarrow> worker_pc_step j p w | _ \<Rightarrow> None)
      else None)"

text \<open>
  The events of a run: the controlling thread makes a call (when its last call has
  returned), or one of the threads takes a step. After \<^verbatim>\<open>std::terminate\<close> or a fault
  nothing happens any more.
\<close>

datatype 'f ev = Api "'f api" | Ctl | Loop time_t | Worker nat

fun is_Api :: "'f ev \<Rightarrow> bool" where
  "is_Api (Api c) = True"
| "is_Api e = False"

definition or_stay :: "'f world \<Rightarrow> 'f world option \<Rightarrow> 'f world" where
  "or_stay w r = (case r of None \<Rightarrow> w | Some w' \<Rightarrow> w')"

fun step :: "'f world \<Rightarrow> 'f ev \<Rightarrow> 'f world" where
  "step w (Api c) =
     (if halted w = None \<and> todo w = [] then w\<lparr>todo := statements c\<rparr> else w)"
| "step w Ctl = (if halted w = None then or_stay w (ctl_step w) else w)"
| "step w (Loop now) = (if halted w = None then or_stay w (loop_step now w) else w)"
| "step w (Worker j) = (if halted w = None then or_stay w (worker_step j w) else w)"

definition execute :: "'f world \<Rightarrow> 'f ev list \<Rightarrow> 'f world" where
  "execute w es = foldl step w es"


subsection \<open>States of the life cycle\<close>

fun is_running :: "'p thread \<Rightarrow> bool" where
  "is_running (Running p) = True"
| "is_running t = False"

text \<open>
  A worker is active while it is running and not in the second half of its loop
  condition, which it evaluates only after it has seen the stop flag of the pool set.
\<close>

fun active :: "'f worker_pc thread \<Rightarrow> bool" where
  "active (Running p) = (p \<noteq> W_guard_buffer)"
| "active t = False"

definition workers_active :: "'f world \<Rightarrow> bool" where
  "workers_active w = (pool_threads w \<noteq> [] \<and> list_all active (pool_threads w))"

text \<open>
  A running scheduler, between two calls of the controlling thread: both stop flags are
  clear, the loop thread runs (it has not seen the stop flag set) and the pool has at
  least one worker, all of them active.
\<close>

definition running :: "'f world \<Rightarrow> bool" where
  "running w =
     (halted w = None \<and> todo w = [] \<and> \<not> break_flag w \<and> \<not> pool_break w \<and>
      is_running (event_loop_thread w) \<and> event_loop_thread w \<noteq> Running L_guard_buffer \<and>
      workers_active w)"

text \<open>A running pool that is fed by the controlling thread, not by a loop thread.\<close>

definition pool_running :: "'f world \<Rightarrow> bool" where
  "pool_running w =
     (halted w = None \<and> todo w = [] \<and> \<not> pool_break w \<and>
      event_loop_thread w = NotAThread \<and> workers_active w)"

text \<open>An idle scheduler has no thread: it was never run, or it has been shut down.\<close>

definition idle :: "'f world \<Rightarrow> bool" where
  "idle w =
     (halted w = None \<and> todo w = [] \<and> event_loop_thread w = NotAThread \<and>
      pool_threads w = [])"

definition stopped :: "'f world \<Rightarrow> bool" where
  "stopped w = (idle w \<and> break_flag w \<and> pool_break w)"

text \<open>
  All work has been drained: no pending task, no task in the ingress buffer, no callable
  in the queue of the pool, and no thread left that could hold one.
\<close>

definition drained :: "'f world \<Rightarrow> bool" where
  "drained w =
     (tasks w = [] \<and> Empty (tasks_buffer w) \<and> Empty (pool_tasks_buffer w) \<and>
      event_loop_thread w = NotAThread \<and> pool_threads w = [])"

text \<open>The statements of \<^verbatim>\<open>Shutdown\<close> and of the destructors.\<close>

fun teardown_stmt :: "'f stmt \<Rightarrow> bool" where
  "teardown_stmt Shutdown_break = True"
| "teardown_stmt Shutdown_join = True"
| "teardown_stmt Pool_Shutdown_break = True"
| "teardown_stmt (Pool_Shutdown_join i) = True"
| "teardown_stmt Pool_Shutdown_clear = True"
| "teardown_stmt Thread_destroy = True"
| "teardown_stmt s = False"

text \<open>
  The invariant of \<^verbatim>\<open>ThreadPool::Shutdown\<close>, by the statement the controlling thread is
  at (\<open>R\<close> are the statements that follow the call): before the stop flag is set the
  workers are active; while the workers are joined, those before position \<open>i\<close> have
  returned, and if any worker has returned the queue is empty; once all have returned
  the queue is empty.
\<close>

definition pool_stopping :: "'f stmt list \<Rightarrow> 'f world \<Rightarrow> bool" where
  "pool_stopping R w =
     (todo w = Pool_Shutdown_break # Pool_Shutdown_join 0 # Pool_Shutdown_clear # R \<and>
      \<not> pool_break w \<and> workers_active w)"

definition pool_joining :: "'f stmt list \<Rightarrow> nat \<Rightarrow> 'f world \<Rightarrow> bool" where
  "pool_joining R i w =
     (todo w = Pool_Shutdown_join i # Pool_Shutdown_clear # R \<and>
      pool_break w \<and> pool_threads w \<noteq> [] \<and> i \<le> length (pool_threads w) \<and>
      \<not> list_ex is_running (take i (pool_threads w)) \<and>
      (list_all is_running (pool_threads w) \<or> Empty (pool_tasks_buffer w)))"

definition pool_joined :: "'f stmt list \<Rightarrow> 'f world \<Rightarrow> bool" where
  "pool_joined R w =
     (todo w = Pool_Shutdown_clear # R \<and> pool_break w \<and>
      \<not> list_ex is_running (pool_threads w) \<and> Empty (pool_tasks_buffer w))"

definition pool_cleared :: "'f world \<Rightarrow> bool" where
  "pool_cleared w =
     (list_all teardown_stmt (todo w) \<and> pool_break w \<and> pool_threads w = [] \<and>
      Empty (pool_tasks_buffer w))"

definition pool_down :: "'f stmt list \<Rightarrow> 'f world \<Rightarrow> bool" where
  "pool_down R w =
     (event_loop_thread w = NotAThread \<and> halted w = None \<and>
      (pool_stopping R w \<or> (\<exists>i. pool_joining R i w) \<or> pool_joined R w \<or> pool_cleared w))"

definition crashed :: "'f world \<Rightarrow> bool" where
  "crashed w = (halted w \<noteq> None \<and> todo w \<noteq> [])"

definition pool_shutting_down :: "'f stmt list \<Rightarrow> 'f world \<Rightarrow> bool" where
  "pool_shutting_down R w = (crashed w \<or> pool_down R w)"

text \<open>
  The invariant of \<^verbatim>\<open>Scheduler::Shutdown\<close> on a running scheduler: until the stop flag is
  set the loop thread has not left its loop; until it is joined it has either not
  returned, or it has returned and left no pending task and an empty ingress buffer;
  from then on the pool is shut down as above.
\<close>

definition loop_stopping :: "'f stmt list \<Rightarrow> 'f world \<Rightarrow> bool" where
  "loop_stopping R w =
     (halted w = None \<and>
      todo w = Shutdown_break # Shutdown_join # Pool_Shutdown_break #
               Pool_Shutdown_join 0 # Pool_Shutdown_clear # R \<and>
      \<not> break_flag w \<and> \<not> pool_break w \<and> workers_active w \<and>
      is_running (event_loop_thread w) \<and> event_loop_thread w \<noteq> Running L_guard_buffer)"

definition loop_joining :: "'f stmt list \<Rightarrow> 'f world \<Rightarrow> bool" where
  "loop_joining R w =
     (halted w = None \<and>
      todo w = Shutdown_join # Pool_Shutdown_break #
               Pool_Shutdown_join 0 # Pool_Shutdown_clear # R \<and>
      break_flag w \<and> \<not> pool_break w \<and> workers_active w \<and>
      (if event_loop_thread w = Finished then tasks w = [] \<and> Empty (tasks_buffer w)
       else is_running (event_loop_thread w) \<and>
            (event_loop_thread w \<noteq> Running L_guard_buffer \<or> tasks w = [])))"

definition loop_joined :: "'f stmt list \<Rightarrow> 'f world \<Rightarrow> bool" where
  "loop_joined R w =
     (pool_down R w \<and> break_flag w \<and> tasks w = [] \<and> Empty (tasks_buffer w))"

definition shutting_down :: "'f stmt list \<Rightarrow> 'f world \<Rightarrow> bool" where
  "shutting_down R w =
     (crashed w \<or> loop_stopping R w \<or> loop_joining R w \<or> loop_joined R w)"


subsection \<open>Example runs\<close>

text \<open>
  A scheduler with an ingress buffer of capacity 2 and one worker: a task due at 5 is
  added, then \<^verbatim>\<open>Run\<close> is called and returns.
\<close>

definition example_added :: "string world" where
  "example_added = execute (new_Scheduler 2 1 '''') [Api (Add ''f'' 5), Ctl]"

definition example_running :: "string world" where
  "example_running = execute example_added [Api Run, Ctl, Ctl, Ctl, Ctl, Ctl]"

text \<open>
  The steps of a shutdown of that scheduler (without the call itself), the clock showing
  7: the stop flag is set; the loop thread finds the task in the ingress buffer, takes it
  to the pending list, hands it to the pool and finds nothing left; it is joined; the
  stop flag of the pool is set; the worker pops the callable, invokes it and finds the
  queue empty; it is joined and the handles are cleared.
\<close>

definition example_shutdown :: "string ev list" where
  "example_shutdown =
     Ctl # replicate 10 (Loop 7) @ [Ctl, Ctl] @ replicate 6 (Worker 0) @ [Ctl, Ctl, Ctl]"

text \<open>A pool with one worker that is run on its own and given one callable.\<close>

definition example_pool_running :: "string world" where
  "example_pool_running =
     execute (new_Scheduler 2 1 '''')
       [Api Pool_Run, Ctl, Ctl, Ctl, Api (Pool_AddTask ''g''), Ctl]"

definition example_pool_shutdown :: "string ev list" where
  "example_pool_shutdown = Ctl # replicate 6 (Worker 0) @ [Ctl, Ctl, Ctl]"


section \<open>Properties of the buffer\<close>

subsection \<open>The two levels agree\<close>

text \<open>
  A call run without interference is the thread of the statement-level model taking its
  steps alone.
\<close>

lemma solo_EmplacePush:
  "solo 6 (Push_check v) b =
     (case EmplacePush v b of
        Returns b' \<Rightarrow> (Done None, b')
      | Blocks \<Rightarrow> (Push_wait v (int_of_size_t (read_counter b)), b)
      | Fails e \<Rightarrow> (Crashed e, b))"
  by (simp add: eval_nat_numeral EmplacePush_def store_and_publish_def Let_def
      split: sum.splits)

lemma solo_PopUnsafe:
  "solo 3 PopUnsafe_check b =
     (case PopUnsafe b of
        Returns (v, b') \<Rightarrow> (Done (Some v), b')
      | Blocks \<Rightarrow> (PopUnsafe_check, b)
      | Fails e \<Rightarrow> (Crashed e, b))"
  by (simp add: numeral_3_eq_3 PopUnsafe_def split: sum.splits)

lemma solo_Pop:
  "solo 7 Pop_lock b =
     (case Pop b of
        Returns (v, b') \<Rightarrow> (Done (Some v), b')
      | Blocks \<Rightarrow>
          (if mutex_read b then (Pop_lock, b)
           else (Pop_wait (write_counter b), b\<lparr>mutex_read := True\<rparr>))
      | Fails e \<Rightarrow>
          (Crashed e, b\<lparr>mutex_read := True, read_counter := read_counter b + 1\<rparr>))"
  by (simp add: eval_nat_numeral Pop_def take_front_def slot_index_def slot_read_def Let_def
      split: sum.splits)

lemma solo_TryPopFor:
  "solo 4 TryPopFor_lock b =
     (case TryPopFor limit_ms b of
        Returns ((r, waited), b') \<Rightarrow> (Done r, b')
      | Blocks \<Rightarrow> (TryPopFor_lock, b)
      | Fails e \<Rightarrow>
          (Crashed e, b\<lparr>mutex_read := True, read_counter := read_counter b + 1\<rparr>))"
  by (simp add: eval_nat_numeral TryPopFor_def take_front_def slot_index_def slot_read_def
      Let_def split: sum.splits)

subsection \<open>Slot indices\<close>

lemma slot_index_less:
  "wf_buffer b \<Longrightarrow>
   slot_index b c = Inr (unat c mod unat (max_size b)) \<and>
   unat c mod unat (max_size b) < length (buf b)"
  by (simp add: wf_buffer_def slot_index_def unat_mod unat_gt_0)

lemma pc_ok_length: "length (buf b') = length (buf b) \<Longrightarrow> pc_ok b' p = pc_ok b p"
  by (cases p) simp_all

lemma entry_ok: "pc_ok b (entry c)"
  by (cases c) simp_all

lemma thread_step_ok:
  assumes "wf_buffer b" "pc_ok b p" "thread_step p b = Some (p', b')"
  shows "wf_buffer b' \<and> pc_ok b' p' \<and> length (buf b') = length (buf b)"
proof -
  note ix = slot_index_less [OF assms(1)]
  have pos: "0 < unat (max_size b)"
    using assms(1) by (simp add: wf_buffer_def unat_gt_0)
  show ?thesis
    using assms pos
    by (cases p) (auto simp: ix slot_read_def slot_write_def wf_buffer_def split: if_splits)
qed

lemma sys_step_ok: "sys_ok s \<Longrightarrow> sys_ok (sys_step s e)"
proof (cases e)
  case (Call t c)
  assume "sys_ok s"
  then show ?thesis using Call by (simp add: sys_ok_def entry_ok)
next
  case (Step t)
  assume ok: "sys_ok s"
  show ?thesis
  proof (cases "crash s \<noteq> None \<or> thread_step (threads s t) (shared s) = None")
    case True
    then show ?thesis using ok Step by auto
  next
    case False
    then obtain p b where st: "thread_step (threads s t) (shared s) = Some (p, b)"
      and nc: "crash s = None"
      by auto
    from ok have "wf_buffer (shared s)" "pc_ok (shared s) (threads s t)"
      by (simp_all add: sys_ok_def)
    from thread_step_ok [OF this st]
    have b: "wf_buffer b" "pc_ok b p" "length (buf b) = length (buf (shared s))"
      by simp_all
    have others: "\<forall>u. pc_ok b (threads s u)"
      using ok pc_ok_length [OF b(3)] by (simp add: sys_ok_def)
    have cr: "(case p of Crashed e \<Rightarrow> Some e | _ \<Rightarrow> None) \<noteq> Some DivisionByZero \<and>
              (case p of Crashed e \<Rightarrow> Some e | _ \<Rightarrow> None) \<noteq> Some OutOfBounds"
      using b(2) by (cases p) simp_all
    show ?thesis
      using Step st nc b others cr by (simp add: sys_ok_def)
  qed
qed

lemma run_ok: "sys_ok s \<Longrightarrow> sys_ok (run s es)"
  unfolding run_def by (induction es arbitrary: s) (simp_all add: sys_step_ok)

lemma start_ok: "sz \<noteq> 0 \<Longrightarrow> sys_ok (start sz d)"
  by (simp add: sys_ok_def start_def new_buffer_def wf_buffer_def)

text \<open>
  C10. In a buffer constructed with a capacity that is not 0, whatever the threads do and
  however their statements interleave, no slot access of \<^verbatim>\<open>EmplacePush\<close>, \<^verbatim>\<open>Pop\<close>,
  \<^verbatim>\<open>TryPopFor\<close> or \<^verbatim>\<open>PopUnsafe\<close> leaves the array and no modulo divides by zero: every
  index is the counter modulo the capacity, which is below the capacity. Nothing checks
  the capacity: with capacity 0 every index computation is a division by zero, and the
  first \<^verbatim>\<open>EmplacePush\<close> on such a buffer traps.
\<close>

theorem slot_accesses_in_bounds:
  "(sz \<noteq> 0 \<longrightarrow>
      crash (run (start sz d) es) \<noteq> Some DivisionByZero \<and>
      crash (run (start sz d) es) \<noteq> Some OutOfBounds) \<and>
   (wf_buffer b \<longrightarrow>
      slot_index b c = Inr (unat c mod unat (max_size b)) \<and>
      unat c mod unat (max_size b) < unat (max_size b) \<and>
      unat (max_size b) = length (buf b)) \<and>
   (max_size b = 0 \<longrightarrow> slot_index b c = Inl DivisionByZero) \<and>
   EmplacePush v (new_buffer 0 d) = Fails DivisionByZero"
proof -
  have "sz \<noteq> 0 \<Longrightarrow> sys_ok (run (start sz d) es)"
    by (rule run_ok) (rule start_ok)
  moreover have "wf_buffer b \<Longrightarrow> unat (max_size b) = length (buf b)"
    by (simp add: wf_buffer_def)
  moreover have "max_size b = 0 \<Longrightarrow> slot_index b c = Inl DivisionByZero"
    by (simp add: slot_index_def)
  moreover have "EmplacePush v (new_buffer 0 d) = Fails DivisionByZero"
    by (simp add: EmplacePush_def store_and_publish_def new_buffer_def slot_index_def)
  ultimately show ?thesis
    using slot_index_less [of b c] by (auto simp: sys_ok_def)
qed

theorem slot_accesses_in_bounds_witness:
  "(1 :: size_t) \<noteq> 0 \<and>
   crash (run (start 1 (0::nat)) overtaking_schedule) \<noteq> Some DivisionByZero \<and>
   crash (run (start 1 (0::nat)) overtaking_schedule) \<noteq> Some OutOfBounds \<and>
   wf_buffer (new_buffer 3 (0::nat)) \<and>
   slot_index (new_buffer 3 (0::nat)) 7 = Inr 1 \<and>
   max_size (new_buffer 0 (0::nat)) = 0 \<and>
   slot_index (new_buffer 0 (0::nat)) 7 = Inl DivisionByZero"
  using slot_accesses_in_bounds
    [of 1 "0::nat" overtaking_schedule "new_buffer 3 (0::nat)" 7 "0::nat"]
    slot_accesses_in_bounds
    [of 1 "0::nat" overtaking_schedule "new_buffer 0 (0::nat)" 7 "0::nat"]
  by (simp add: wf_buffer_def new_buffer_def)

subsection \<open>PopUnsafe\<close>

text \<open>
  C6. \<^verbatim>\<open>PopUnsafe\<close> on a buffer with \<^verbatim>\<open>read_counter_ >= write_counter_\<close> aborts the process
  and does not return. On a buffer that is not empty it returns the element of the slot
  \<^verbatim>\<open>read_counter_ % max_size_\<close>, adds one to \<^verbatim>\<open>read_counter_\<close> and changes nothing else,
  so \<^verbatim>\<open>write_counter_\<close> is as before.
\<close>

theorem PopUnsafe_spec:
  "(read_counter b \<ge> write_counter b \<longrightarrow> PopUnsafe b = Fails Abort) \<and>
   (read_counter b < write_counter b \<and> wf_buffer b \<longrightarrow>
      PopUnsafe b = Returns (buf b ! unat (read_counter b mod max_size b),
                             b\<lparr>read_counter := read_counter b + 1\<rparr>))"
  using slot_index_less [of b "read_counter b"]
  by (auto simp: PopUnsafe_def slot_read_def unat_mod)

theorem PopUnsafe_spec_witness:
  "read_counter (new_buffer 2 (0::nat)) \<ge> write_counter (new_buffer 2 (0::nat)) \<and>
   PopUnsafe (new_buffer 2 (0::nat)) = Fails Abort \<and>
   PopUnsafe \<lparr>read_counter = 3, write_counter = 4, buf = [5, 6::nat], max_size = 2,
              mutex_read = False\<rparr>
     = Returns (6, \<lparr>read_counter = 4, write_counter = 4, buf = [5, 6], max_size = 2,
                    mutex_read = False\<rparr>)"
  using PopUnsafe_spec [of "new_buffer 2 (0::nat)"]
    PopUnsafe_spec [of "\<lparr>read_counter = 3, write_counter = 4, buf = [5, 6::nat],
                        max_size = 2, mutex_read = False\<rparr>"]
  by (simp add: new_buffer_def wf_buffer_def)

subsection \<open>First in, first out\<close>

text \<open>
  C1. The values returned by the consuming operations, in the order in which they
  return, should be a prefix of the values pushed. \<^verbatim>\<open>Pop\<close> and \<^verbatim>\<open>TryPopFor\<close> advance
  \<^verbatim>\<open>read_counter_\<close> before they read the slot (\<^verbatim>\<open>PopUnsafe\<close> reads first), so between the
  two the producer sees a free slot and overwrites the value that is being consumed:
  with one producer and one consumer, 1 and 2 are pushed and \<^verbatim>\<open>Pop\<close> returns 2.
\<close>

theorem Pop_returns_overwritten_slot:
  "pushed (run (start 1 0) overtaking_schedule) = [1, 2] \<and>
   consumed (run (start 1 0) overtaking_schedule) = [2] \<and>
   crash (run (start 1 0) overtaking_schedule) = None \<and>
   threads (run (start 1 0) overtaking_schedule) 1 = Done (Some 2) \<and>
   \<not> prefix (consumed (run (start 1 0) overtaking_schedule))
             (pushed (run (start 1 0) overtaking_schedule))"
  by (simp add: run_def start_def new_buffer_def slot_index_def slot_read_def slot_write_def
      overtaking_schedule_def)

subsection \<open>The capacity bound\<close>

lemma calls_append:
  "calls (cs @ ds) b =
     (case calls cs b of
        Returns b' \<Rightarrow> calls ds b' | Blocks \<Rightarrow> Blocks | Fails e \<Rightarrow> Fails e)"
  by (induction cs arbitrary: b) (simp_all split: outcome.splits)

lemma push_pop_round:
  assumes "c \<noteq> - 1"
  shows "calls [CallEmplacePush x, CallPopUnsafe]
           \<lparr>read_counter = c, write_counter = c, buf = [y], max_size = 1,
            mutex_read = False\<rparr>
         = Returns \<lparr>read_counter = c + 1, write_counter = c + 1, buf = [x], max_size = 1,
                    mutex_read = False\<rparr>"
  using assms
  by (simp add: EmplacePush_def store_and_publish_def slot_index_def slot_write_def
      slot_read_def PopUnsafe_def inc_less_eq_self_iff_eq)

lemma push_pop_rounds:
  "k + n < 2 ^ 64 - 1 \<Longrightarrow>
   \<exists>z. calls (concat (replicate n [CallEmplacePush x, CallPopUnsafe]))
           \<lparr>read_counter = of_nat k, write_counter = of_nat k, buf = [y], max_size = 1,
            mutex_read = False\<rparr>
         = Returns \<lparr>read_counter = of_nat (k + n), write_counter = of_nat (k + n),
                    buf = [z], max_size = 1, mutex_read = False\<rparr>"
proof (induction n arbitrary: k y)
  case 0
  then show ?case by simp
next
  case (Suc n)
  have ne: "(of_nat k :: size_t) \<noteq> - 1"
  proof
    assume "(of_nat k :: size_t) = - 1"
    then have "unat (of_nat k :: size_t) = unat (- 1 :: size_t)" by simp
    moreover have "k < 2 ^ 64" using Suc.prems by simp
    ultimately show False
      using Suc.prems by (simp add: unat_of_nat unsigned_minus_1_eq_mask mask_eq_exp_minus_1)
  qed
  have "Suc k + n < 2 ^ 64 - 1" using Suc.prems by simp
  from Suc.IH [OF this, of x] obtain z where
    z: "calls (concat (replicate n [CallEmplacePush x, CallPopUnsafe]))
           \<lparr>read_counter = of_nat (Suc k), write_counter = of_nat (Suc k), buf = [x],
            max_size = 1, mutex_read = False\<rparr>
         = Returns \<lparr>read_counter = of_nat (Suc k + n), write_counter = of_nat (Suc k + n),
                    buf = [z], max_size = 1, mutex_read = False\<rparr>" by blast
  have "concat (replicate (Suc n) [CallEmplacePush x, CallPopUnsafe]) =
        [CallEmplacePush x, CallPopUnsafe] @
        concat (replicate n [CallEmplacePush x, CallPopUnsafe])"
    by simp
  then show ?case
    using push_pop_round [OF ne, of x y] z
    by (simp only: calls_append outcome.case) (auto simp: add.commute)
qed

text \<open>
  Line 83 copies \<^verbatim>\<open>read_counter_\<close> into an \<^verbatim>\<open>int\<close>, and lines 84 and 85 convert the copy
  back to \<^verbatim>\<open>size_t\<close>. Below \<open>2 ^ 31\<close> the round trip gives the counter back, and the push
  on a full buffer blocks, as long as the counters have not wrapped around.
\<close>

lemma high_bits_clear:
  assumes "unat (r :: size_t) < 2 ^ 31" "31 \<le> n"
  shows "\<not> bit r n"
proof -
  have "(2::nat) ^ 31 \<le> 2 ^ n" using assms(2) by (rule power_increasing) simp
  then have "unat r div 2 ^ n = 0" using assms(1) by simp
  then have "\<not> bit (unat r) n" by (simp add: bit_iff_odd)
  then show ?thesis by (simp add: bit_unsigned_iff)
qed

lemma int_round_trip:
  assumes "unat (r :: size_t) < 2 ^ 31"
  shows "size_t_of_int (int_of_size_t r) = r"
  unfolding size_t_of_int_def int_of_size_t_def
proof (rule bit_word_eqI)
  fix n assume "n < LENGTH(64)"
  show "bit (scast (ucast r :: c_int) :: size_t) n = bit r n"
  proof (cases "n < 31")
    case True
    then show ?thesis by (simp add: bit_signed_iff bit_unsigned_iff min_def)
  next
    case False
    then have "\<not> bit r n" "\<not> bit r 31" using high_bits_clear [OF assms] by simp_all
    then show ?thesis using False by (simp add: bit_signed_iff bit_unsigned_iff min_def)
  qed
qed

lemma EmplacePush_full_blocks:
  assumes "wf_buffer b" "read_counter b \<le> write_counter b"
    "write_counter b - read_counter b = max_size b"
    "unat (read_counter b) < 2 ^ 31"
  shows "EmplacePush v b = Blocks"
proof -
  have ne: "max_size b \<noteq> 0" using assms(1) by (simp add: wf_buffer_def)
  then have "write_counter b \<noteq> 0" using assms(2,3) by auto
  moreover have "size_t_of_int (int_of_size_t (read_counter b)) = read_counter b"
    using assms(4) by (rule int_round_trip)
  moreover have "write_counter b mod max_size b = read_counter b mod max_size b"
  proof -
    have "unat (write_counter b) = unat (read_counter b) + unat (max_size b)"
      using assms(2,3) by (metis unat_sub le_add_diff_inverse word_le_nat_alt)
    then show ?thesis by (simp add: word_unat_eq_iff unat_mod)
  qed
  ultimately show ?thesis using ne assms(3) by (simp add: EmplacePush_def)
qed

text \<open>
  C2. The invariant \<open>0 \<le> write_counter - read_counter \<le> capacity\<close> should hold after
  every operation. \<^verbatim>\<open>EmplacePush\<close> keeps the value of \<^verbatim>\<open>read_counter_\<close> it waits on in an
  \<^verbatim>\<open>int\<close>: from \<open>2 ^ 31\<close> on, the truncated copy differs from the counter, the wait returns
  at once and the push writes into the full buffer. A buffer of capacity 1, after
  \<open>2 ^ 31\<close> rounds of one push and one pop: the next push fills it, and the push after
  that returns without any consumer, leaves two unconsumed items in a buffer of capacity
  1, and has overwritten the 1 by the 2.
\<close>

theorem EmplacePush_truncated_old_read:
  "calls (concat (replicate (2 ^ 31) [CallEmplacePush 0, CallPopUnsafe]) @
            [CallEmplacePush 1, CallEmplacePush 2]) (new_buffer 1 (0::nat))
     = Returns \<lparr>read_counter = 2 ^ 31, write_counter = 2 ^ 31 + 2, buf = [2], max_size = 1,
                mutex_read = False\<rparr>
   \<and> \<not> capacity_inv \<lparr>read_counter = 2 ^ 31, write_counter = 2 ^ 31 + 2, buf = [2::nat],
                max_size = 1, mutex_read = False\<rparr>"
proof -
  have "(0::nat) + 2 ^ 31 < 2 ^ 64 - 1" by simp
  from push_pop_rounds [OF this, of "0::nat" "0::nat"] obtain z :: nat where
    "calls (concat (replicate (2 ^ 31) [CallEmplacePush 0, CallPopUnsafe]))
        (new_buffer 1 (0::nat))
       = Returns \<lparr>read_counter = 2 ^ 31, write_counter = 2 ^ 31, buf = [z], max_size = 1,
                  mutex_read = False\<rparr>"
    by (auto simp: new_buffer_def)
  then show ?thesis
    by (simp add: calls_append EmplacePush_def store_and_publish_def slot_index_def
        slot_write_def int_of_size_t_def size_t_of_int_def capacity_inv_def)
qed

subsection \<open>TryPopFor\<close>




section \<open>Properties of the event loop\<close>

subsection \<open>The scan\<close>

lemma upt_0_Suc: "[0..<Suc m] = 0 # map Suc [0..<m]"
  by (simp add: upt_conv_Cons map_Suc_upt del: upt_Suc)

lemma due_at_Cons:
  "due_at clock n (t # rest) =
     (if due t (clock n) then [0] else []) @ map Suc (due_at clock (Suc n) rest)"
  unfolding due_at_def by (simp add: upt_0_Suc filter_map comp_def del: upt_Suc)

lemma not_due_at_Cons:
  "not_due_at clock n (t # rest) =
     (if due t (clock n) then [] else [0]) @ map Suc (not_due_at clock (Suc n) rest)"
  unfolding not_due_at_def by (simp add: upt_0_Suc filter_map comp_def del: upt_Suc)

lemma scan_general:
  "scan clock n i rest to_remove handed =
     (n + length rest,
      rev (map (\<lambda>k. i + k) (due_at clock n rest)) @ to_remove,
      handed @ map (\<lambda>k. func (rest ! k)) (due_at clock n rest))"
proof (induction rest arbitrary: n i to_remove handed)
  case Nil
  then show ?case by (simp add: due_at_def)
next
  case (Cons t rest)
  show ?case
    by (simp add: Cons.IH due_at_Cons comp_def)
qed

lemma erase_all_append: "erase_all (xs @ ys) ts = erase_all ys (erase_all xs ts)"
  by (induction xs arbitrary: ts) simp_all

lemma erase_all_shift: "erase_all (map Suc xs) (t # ts) = t # erase_all xs ts"
  by (induction xs arbitrary: ts) simp_all

lemma erase_all_due:
  "erase_all (rev (due_at clock n ts)) ts = map ((!) ts) (not_due_at clock n ts)"
proof (induction ts arbitrary: n)
  case Nil
  then show ?case by (simp add: due_at_def not_due_at_def)
next
  case (Cons t rest)
  have "erase_all (rev (map Suc (due_at clock (Suc n) rest))) (t # rest) =
        t # map ((!) rest) (not_due_at clock (Suc n) rest)"
    using Cons.IH [of "Suc n"] erase_all_shift [of "rev (due_at clock (Suc n) rest)" t rest]
    by (simp add: rev_map)
  then show ?case
    by (simp add: due_at_Cons not_due_at_Cons erase_all_append comp_def)
qed

text \<open>
  C4. In a scan of the pending list \<open>ts\<close>, the task at position \<open>i\<close> is visited with the
  clock reading \<open>clock (n + i)\<close>. The callables handed to the worker pool by the scan are
  those of the tasks whose due instant is at most the reading made at their visit, and
  of no other task: a task is never handed over at an observed time before its due
  instant, it is handed over when the observed time is its due instant or later, and a
  task due exactly at the observed time is handed over.
\<close>

theorem scan_hands_over_the_due_tasks:
  "scan clock n 0 ts [] [] =
     (n + length ts,
      rev (filter (\<lambda>i. timestamp (ts ! i) \<le> clock (n + i)) [0..<length ts]),
      map (\<lambda>i. func (ts ! i))
        (filter (\<lambda>i. timestamp (ts ! i) \<le> clock (n + i)) [0..<length ts]))"
  by (simp add: scan_general due_at_def due_def)

subsection \<open>The order of the pending list\<close>

lemma contents_Empty: "Empty b \<Longrightarrow> contents b = []"
  by (simp add: contents_def Empty_def)

lemma PopUnsafe_contents:
  assumes "wf_buffer b" "read_counter b \<le> write_counter b" "\<not> Empty b"
  shows "\<exists>x b'. PopUnsafe b = Returns (x, b') \<and> contents b = x # contents b' \<and>
           wf_buffer b' \<and> read_counter b' \<le> write_counter b'"
proof -
  let ?r = "read_counter b" and ?w = "write_counter b"
  from assms have lt: "?r < ?w" by (simp add: Empty_def)
  let ?b' = "b\<lparr>read_counter := ?r + 1\<rparr>"
  have pop: "PopUnsafe b = Returns (buf b ! unat (?r mod max_size b), ?b')"
    using slot_index_less [OF assms(1), of ?r] lt
    by (auto simp: PopUnsafe_def slot_read_def unat_mod)
  have ne: "?w - ?r \<noteq> 0" using lt by simp
  then have pos: "0 < unat (?w - ?r)" by (simp add: unat_gt_0)
  have len: "unat (?w - (?r + 1)) = unat (?w - ?r) - 1"
    using unat_minus_one [OF ne] by (simp add: diff_diff_eq)
  have "[0..<unat (?w - ?r)] = 0 # map Suc [0..<unat (?w - ?r) - 1]"
    using pos upt_0_Suc [of "unat (?w - ?r) - 1"] by simp
  then have "contents b = buf b ! unat (?r mod max_size b) # contents ?b'"
    by (simp add: contents_def len comp_def add.assoc del: upt_Suc)
  moreover have "wf_buffer ?b'" using assms(1) by (simp add: wf_buffer_def)
  moreover have "read_counter ?b' \<le> write_counter ?b'" using lt by (simp add: inc_le)
  ultimately show ?thesis using pop by blast
qed

lemma subseq_nth_filter: "subseq (map ((!) xs) (filter P [0..<length xs])) xs"
proof -
  have "subseq (map ((!) xs) (filter P [0..<length xs])) (map ((!) xs) [0..<length xs])"
    by (intro subseq_map subseq_filter_left)
  then show ?thesis by (simp add: map_nth)
qed

lemma drain_contents:
  assumes "wf_buffer b" "read_counter b \<le> write_counter b"
  shows "\<exists>ts1 b1. drain ts b = Returns (ts1, b1) \<and> wf_buffer b1 \<and>
           read_counter b1 \<le> write_counter b1 \<and>
           (if Empty b then ts1 = ts \<and> b1 = b
            else ts1 = hd (contents b) # ts \<and> contents b1 = tl (contents b)) \<and>
           rev (contents b1) @ ts1 = rev (contents b) @ ts"
proof (cases "Empty b")
  case True
  then show ?thesis using assms by (simp add: drain_def)
next
  case False
  from PopUnsafe_contents [OF assms False] obtain x b' where
    "PopUnsafe b = Returns (x, b')" "contents b = x # contents b'"
    "wf_buffer b'" "read_counter b' \<le> write_counter b'" by blast
  then show ?thesis using False by (simp add: drain_def)
qed

lemma EventLoop_body_order:
  assumes "wf_buffer b" "read_counter b \<le> write_counter b"
  shows "\<exists>ts0 b1. drain ts b = Returns (ts0, b1) \<and>
           (if Empty b then ts0 = ts \<and> b1 = b
            else ts0 = hd (contents b) # ts \<and> contents b1 = tl (contents b)) \<and>
           EventLoop_body clock n ts b =
             Returns (n + length ts0, map ((!) ts0) (not_due_at clock n ts0), b1,
                      map (\<lambda>i. func (ts0 ! i)) (due_at clock n ts0)) \<and>
           wf_buffer b1 \<and> read_counter b1 \<le> write_counter b1 \<and>
           subseq (map (\<lambda>i. func (ts0 ! i)) (due_at clock n ts0))
             (map func (rev (contents b) @ ts)) \<and>
           subseq (rev (contents b1) @ map ((!) ts0) (not_due_at clock n ts0))
             (rev (contents b) @ ts)"
proof -
  from drain_contents [OF assms, of ts] obtain ts0 b1 where
    d: "drain ts b = Returns (ts0, b1)" "wf_buffer b1" "read_counter b1 \<le> write_counter b1"
       "if Empty b then ts0 = ts \<and> b1 = b
        else ts0 = hd (contents b) # ts \<and> contents b1 = tl (contents b)"
       "rev (contents b1) @ ts0 = rev (contents b) @ ts" by blast
  let ?handed = "map (\<lambda>i. func (ts0 ! i)) (due_at clock n ts0)"
  let ?ts1 = "map ((!) ts0) (not_due_at clock n ts0)"
  have body: "EventLoop_body clock n ts b = Returns (n + length ts0, ?ts1, b1, ?handed)"
    by (simp add: EventLoop_body_def d(1) scan_general erase_all_due)
  have "?handed = map func (map ((!) ts0) (due_at clock n ts0))" by simp
  moreover have "subseq (map ((!) ts0) (due_at clock n ts0)) ts0"
    unfolding due_at_def by (rule subseq_nth_filter)
  ultimately have "subseq ?handed (map func ts0)"
    by (simp only: subseq_map)
  moreover have "subseq (map func ts0) (map func (rev (contents b1) @ ts0))"
    by (intro subseq_map subseq_drop_many) simp
  ultimately have h: "subseq ?handed (map func (rev (contents b) @ ts))"
    using d(5) subseq_order.trans by metis
  have "subseq ?ts1 ts0"
    unfolding not_due_at_def by (rule subseq_nth_filter)
  then have "subseq (rev (contents b1) @ ?ts1) (rev (contents b1) @ ts0)"
    by (simp add: subseq_append')
  with body d h show ?thesis by simp
qed

lemma EventLoop_iterations_order:
  assumes "wf_buffer b" "read_counter b \<le> write_counter b"
  shows "\<exists>n' ts' b' hs. EventLoop_iterations k clock n ts b = Returns (n', ts', b', hs) \<and>
           length hs = k \<and>
           (\<forall>h\<in>set hs. subseq h (map func (rev (contents b) @ ts))) \<and>
           subseq (rev (contents b') @ ts') (rev (contents b) @ ts)"
  using assms
proof (induction k arbitrary: n ts b)
  case 0
  then show ?case by simp
next
  case (Suc k)
  from EventLoop_body_order [OF Suc.prems, of ts clock n] obtain n1 ts1 b1 handed where
    b: "EventLoop_body clock n ts b = Returns (n1, ts1, b1, handed)"
       "wf_buffer b1" "read_counter b1 \<le> write_counter b1"
       "subseq handed (map func (rev (contents b) @ ts))"
       "subseq (rev (contents b1) @ ts1) (rev (contents b) @ ts)" by blast
  from Suc.IH [OF b(2,3), of n1 ts1] obtain n' ts' b' hs where
    i: "EventLoop_iterations k clock n1 ts1 b1 = Returns (n', ts', b', hs)"
       "length hs = k"
       "\<forall>h\<in>set hs. subseq h (map func (rev (contents b1) @ ts1))"
       "subseq (rev (contents b') @ ts') (rev (contents b1) @ ts1)" by blast
  have up: "subseq (map func (rev (contents b1) @ ts1)) (map func (rev (contents b) @ ts))"
    using b(5) by (simp only: subseq_map)
  have "\<forall>h\<in>set (handed # hs). subseq h (map func (rev (contents b) @ ts))"
    using b(4) i(3) up subseq_order.trans by auto
  moreover have "subseq (rev (contents b') @ ts') (rev (contents b) @ ts)"
    using i(4) b(5) subseq_order.trans by blast
  ultimately show ?case using b(1) i(1,2) by simp
qed

lemma example_ingress_contents:
  "contents example_ingress =
     [\<lparr>timestamp = 5, func = ''a''\<rparr>, \<lparr>timestamp = 5, func = ''b''\<rparr>,
      \<lparr>timestamp = 5, func = ''c''\<rparr>]"
  by (simp add: contents_def example_ingress_def upt_conv_Cons)

lemma example_iterations:
  "EventLoop_iterations 4 example_clock 0 [] example_ingress =
     Returns (9, [], example_ingress\<lparr>read_counter := 3\<rparr>,
              [[], [], [], [''c'', ''b'', ''a'']])"
  by code_simp

text \<open>
  C5. An iteration of the event loop pops at most one task from the ingress buffer, the
  oldest, and puts it at the head of the pending list; the scan hands over the due tasks
  from the head of the list to its tail; the tasks handed over leave the list after the
  scan, and the others keep their order. So the pending list is at any time in reverse
  ingress order, and the callables that one scan hands over are in reverse ingress
  order: whatever the clock shows, after any number \<open>k\<close> of iterations that start with
  the pending list \<open>ts\<close> and the ingress queue \<open>contents b\<close>, the callables handed over by
  each scan follow the order of the reversed ingress queue followed by \<open>ts\<close>.
\<close>

theorem EventLoop_hands_over_in_reverse_ingress_order:
  assumes "wf_buffer b" and "read_counter b \<le> write_counter b"
  shows "(\<exists>ts0 b1. drain ts b = Returns (ts0, b1) \<and>
            (if Empty b then ts0 = ts \<and> b1 = b
             else ts0 = hd (contents b) # ts \<and> contents b1 = tl (contents b)) \<and>
            EventLoop_body clock n ts b =
              Returns (n + length ts0,
                map ((!) ts0)
                  (filter (\<lambda>i. \<not> timestamp (ts0 ! i) \<le> clock (n + i)) [0..<length ts0]),
                b1,
                map (\<lambda>i. func (ts0 ! i))
                  (filter (\<lambda>i. timestamp (ts0 ! i) \<le> clock (n + i)) [0..<length ts0]))) \<and>
         (\<exists>n' ts' b' hs.
            EventLoop_iterations k clock n ts b = Returns (n', ts', b', hs) \<and>
            length hs = k \<and>
            (\<forall>h\<in>set hs. subseq h (map func (rev (contents b) @ ts))) \<and>
            subseq (rev (contents b') @ ts') (rev (contents b) @ ts))"
proof -
  from EventLoop_body_order [OF assms, of ts clock n]
  have "\<exists>ts0 b1. drain ts b = Returns (ts0, b1) \<and>
            (if Empty b then ts0 = ts \<and> b1 = b
             else ts0 = hd (contents b) # ts \<and> contents b1 = tl (contents b)) \<and>
            EventLoop_body clock n ts b =
              Returns (n + length ts0, map ((!) ts0) (not_due_at clock n ts0), b1,
                       map (\<lambda>i. func (ts0 ! i)) (due_at clock n ts0))"
    by blast
  then show ?thesis
    using EventLoop_iterations_order [OF assms, of k clock n ts]
    by (simp add: due_at_def not_due_at_def due_def)
qed

theorem EventLoop_hands_over_in_reverse_ingress_order_witness:
  "wf_buffer example_ingress \<and>
   read_counter example_ingress \<le> write_counter example_ingress \<and>
   (\<exists>n' ts' b' hs.
      EventLoop_iterations 4 example_clock 0 [] example_ingress = Returns (n', ts', b', hs) \<and>
      length hs = 4 \<and>
      (\<forall>h\<in>set hs. subseq h [''c'', ''b'', ''a'']) \<and>
      hs ! 3 = [''c'', ''b'', ''a''])"
proof -
  have w: "wf_buffer example_ingress"
    by (simp add: wf_buffer_def example_ingress_def)
  have r: "read_counter example_ingress \<le> write_counter example_ingress"
    by (simp add: example_ingress_def)
  from EventLoop_hands_over_in_reverse_ingress_order [OF w r, of "[]" example_clock 0 4]
  obtain n' ts' b' hs where
    h: "EventLoop_iterations 4 example_clock 0 [] example_ingress = Returns (n', ts', b', hs)"
       "length hs = 4"
       "\<forall>h\<in>set hs. subseq h (map func (rev (contents example_ingress) @ []))"
    by blast
  from h(1) have "hs = [[], [], [], [''c'', ''b'', ''a'']]"
    by (simp add: example_iterations)
  with h w r show ?thesis
    by (simp add: example_ingress_contents)
qed


section \<open>Properties of the life cycle\<close>

subsection \<open>Steps\<close>


lemma TryPopFor_Empty: "Empty b \<Longrightarrow> \<exists>wt. TryPopFor l b = Returns ((None, wt), b)"
  by (simp add: TryPopFor_def Empty_def)

lemma list_all_update: "list_all P xs \<Longrightarrow> P v \<Longrightarrow> list_all P (xs[j := v])"
  by (induction xs arbitrary: j) (auto split: nat.splits)

lemma take_update_running:
  assumes "\<not> list_ex is_running (take i xs)" "j < length xs" "is_running (xs ! j)"
  shows "take i (xs[j := v]) = take i xs"
proof -
  have "i \<le> j"
  proof (rule ccontr)
    assume "\<not> i \<le> j"
    then have "j < i" by simp
    then have "xs ! j \<in> set (take i xs)"
      using assms(2) by (metis in_set_conv_nth length_take min_less_iff_conj nth_take)
    then show False using assms(1,3) by (auto simp: list_ex_iff)
  qed
  then show ?thesis by simp
qed

lemma active_is_running: "active t \<Longrightarrow> is_running t"
  by (cases t) simp_all

lemma halted_stays: "halted w \<noteq> None \<Longrightarrow> step w e = w"
  by (cases e) auto

lemma step_Worker:
  "halted w = None \<Longrightarrow> step w (Worker j) = or_stay w (worker_step j w)"
  by simp

lemma step_Ctl:
  "halted w = None \<Longrightarrow> todo w = s # rest \<Longrightarrow> step w Ctl = or_stay w (ctl_stmt s rest w)"
  by (simp add: ctl_step_def)

lemma step_Ctl_Nil: "todo w = [] \<Longrightarrow> step w Ctl = w"
  by (simp add: ctl_step_def or_stay_def)

lemma step_Loop:
  "halted w = None \<Longrightarrow> event_loop_thread w = Running p \<Longrightarrow>
   step w (Loop now) = or_stay w (loop_pc_step now p w)"
  by (simp add: loop_step_def)

lemma step_Loop_not_running:
  "\<not> is_running (event_loop_thread w) \<Longrightarrow> step w (Loop now) = w"
  by (cases "event_loop_thread w") (simp_all add: loop_step_def or_stay_def)

lemma step_Api:
  "halted w = None \<Longrightarrow> todo w = [] \<Longrightarrow> step w (Api c) = w\<lparr>todo := statements c\<rparr>"
  by simp

declare step.simps [simp del]

lemma crashed_stays: "crashed w \<Longrightarrow> step w e = w"
  by (simp add: crashed_def halted_stays)

subsection \<open>Steps of a worker\<close>

lemma worker_step_cases:
  assumes "worker_step j w = Some w'"
  obtains p where "j < length (pool_threads w)" "pool_threads w ! j = Running p"
    "worker_pc_step j p w = Some w'"
  using assms by (auto simp: worker_step_def split: if_splits thread.splits)

lemma worker_frame:
  assumes "worker_step j w = Some w'"
  shows "todo w' = todo w \<and> event_loop_thread w' = event_loop_thread w \<and>
         pool_break w' = pool_break w \<and> break_flag w' = break_flag w \<and>
         tasks w' = tasks w \<and> tasks_buffer w' = tasks_buffer w \<and>
         length (pool_threads w') = length (pool_threads w)"
proof -
  from assms obtain p where "worker_pc_step j p w = Some w'" by (rule worker_step_cases)
  then show ?thesis
    by (cases p) (auto split: outcome.splits option.splits prod.splits)
qed

lemma worker_active:
  assumes "workers_active w" "\<not> pool_break w" "worker_step j w = Some w'" "halted w' = None"
  shows "workers_active w'"
proof -
  from assms(3) obtain p where j: "j < length (pool_threads w)" "pool_threads w ! j = Running p"
    and st: "worker_pc_step j p w = Some w'" by (rule worker_step_cases)
  from assms(1) j have "active (Running p)"
    by (metis list_all_length workers_active_def)
  then have ne: "p \<noteq> W_guard_buffer" by simp
  show ?thesis
    using st ne assms(1,2,4)
    by (cases p)
       (auto simp: workers_active_def list_all_update
             split: outcome.splits option.splits prod.splits)
qed

lemma worker_joining:
  assumes "worker_step j w = Some w'" "halted w' = None" "pool_break w"
    "\<not> list_ex is_running (take i (pool_threads w))"
    "list_all is_running (pool_threads w) \<or> Empty (pool_tasks_buffer w)"
  shows "\<not> list_ex is_running (take i (pool_threads w')) \<and>
         (list_all is_running (pool_threads w') \<or> Empty (pool_tasks_buffer w'))"
proof -
  from assms(1) obtain p where j: "j < length (pool_threads w)" "pool_threads w ! j = Running p"
    and st: "worker_pc_step j p w = Some w'" by (rule worker_step_cases)
  have tk: "take i ((pool_threads w)[j := v]) = take i (pool_threads w)" for v
    using take_update_running [OF assms(4) j(1)] j(2) by simp
  show ?thesis
  proof (cases "Empty (pool_tasks_buffer w)")
    case True
    from TryPopFor_Empty [OF True, of 500] obtain wt where
      "TryPopFor 500 (pool_tasks_buffer w) = Returns ((None, wt), pool_tasks_buffer w)" by blast
    then show ?thesis
      using st True assms(4) tk by (cases p) auto
  next
    case False
    with assms(5) have "list_all is_running (pool_threads w)" by simp
    then show ?thesis
      using st False assms(2,4) tk
      by (cases p) (auto simp: list_all_update split: outcome.splits option.splits prod.splits)
  qed
qed

lemma worker_needs_running:
  assumes "\<not> list_ex is_running (pool_threads w)"
  shows "worker_step j w = None"
proof (cases "j < length (pool_threads w)")
  case True
  then have "\<not> is_running (pool_threads w ! j)"
    using assms nth_mem [OF True] by (auto simp: list_ex_iff)
  then show ?thesis by (cases "pool_threads w ! j") (simp_all add: worker_step_def)
next
  case False
  then show ?thesis by (simp add: worker_step_def)
qed

lemma pool_down_Worker:
  assumes "pool_down R w"
  shows "pool_shutting_down R (step w (Worker j))"
proof (cases "worker_step j w")
  case None
  moreover from assms have "halted w = None" by (simp add: pool_down_def)
  ultimately show ?thesis
    using assms by (simp add: pool_shutting_down_def step_Worker or_stay_def)
next
  case (Some w')
  note fr = worker_frame [OF Some]
  from assms have h: "halted w = None" "event_loop_thread w = NotAThread"
    by (simp_all add: pool_down_def)
  have w': "step w (Worker j) = w'" using Some h by (simp add: step_Worker or_stay_def)
  have run: "list_ex is_running (pool_threads w)"
    using worker_needs_running [of w j] Some by auto
  then have ne: "pool_threads w \<noteq> []" by auto
  from assms run ne have ph: "pool_stopping R w \<or> (\<exists>i. pool_joining R i w)"
    by (auto simp: pool_down_def pool_joined_def pool_cleared_def)
  then have td: "todo w \<noteq> []"
    by (auto simp: pool_stopping_def pool_joining_def)
  show ?thesis
  proof (cases "halted w' = None")
    case False
    then show ?thesis using fr w' td by (simp add: pool_shutting_down_def crashed_def)
  next
    case True
    have len: "pool_threads w' \<noteq> []" using fr ne by (metis length_0_conv)
    have "pool_stopping R w' \<or> (\<exists>i. pool_joining R i w')"
      using ph
    proof
      assume C: "pool_stopping R w"
      then have "workers_active w" "\<not> pool_break w" by (simp_all add: pool_stopping_def)
      from worker_active [OF this Some True] C fr
      show ?thesis by (simp add: pool_stopping_def)
    next
      assume "\<exists>i. pool_joining R i w"
      then obtain i where D: "pool_joining R i w" ..
      then have d: "pool_break w" "\<not> list_ex is_running (take i (pool_threads w))"
        "list_all is_running (pool_threads w) \<or> Empty (pool_tasks_buffer w)"
        by (simp_all add: pool_joining_def)
      from worker_joining [OF Some True d] D fr len
      have "pool_joining R i w'" by (simp add: pool_joining_def)
      then show ?thesis by blast
    qed
    then show ?thesis using w' True fr h
      by (auto simp: pool_shutting_down_def pool_down_def)
  qed
qed


subsection \<open>Steps of the controlling thread during the shutdown of the pool\<close>

lemma no_running_take_Suc:
  assumes "\<not> list_ex is_running (take i xs)" "i < length xs"
  shows "\<not> list_ex is_running (take (Suc i) (xs[i := NotAThread]))"
  using assms by (simp add: take_Suc_conv_app_nth list_ex_iff)

lemma not_all_running:
  assumes "i < length xs" "xs ! i = Finished"
  shows "\<not> list_all is_running xs"
  using assms nth_mem [OF assms(1)] by (auto simp: list_all_iff intro!: bexI [of _ Finished])

lemma no_running_not_all: "xs \<noteq> [] \<Longrightarrow> \<not> list_ex is_running xs \<Longrightarrow> \<not> list_all is_running xs"
  by (cases xs) auto

lemma pool_stopping_Ctl:
  assumes "pool_stopping R w" "halted w = None"
  shows "step w Ctl = w\<lparr>pool_break := True,
                         todo := Pool_Shutdown_join 0 # Pool_Shutdown_clear # R\<rparr> \<and>
         pool_joining R 0 (step w Ctl)"
proof -
  from assms(1) have a: "workers_active w"
    "todo w = Pool_Shutdown_break # Pool_Shutdown_join 0 # Pool_Shutdown_clear # R"
    by (simp_all add: pool_stopping_def)
  have "list_all is_running (pool_threads w)"
    using a(1) by (auto simp: workers_active_def list_all_iff active_is_running)
  then show ?thesis
    using a by (simp add: step_Ctl [OF assms(2) a(2)] or_stay_def pool_joining_def
        workers_active_def)
qed

lemma pool_joining_Ctl:
  assumes "pool_joining R i w" "halted w = None"
  shows "crashed (step w Ctl) \<or> pool_joining R i (step w Ctl) \<or>
         pool_joining R (Suc i) (step w Ctl) \<or> pool_joined R (step w Ctl)"
proof -
  from assms(1) have a: "todo w = Pool_Shutdown_join i # Pool_Shutdown_clear # R"
    "pool_break w" "pool_threads w \<noteq> []" "i \<le> length (pool_threads w)"
    "\<not> list_ex is_running (take i (pool_threads w))"
    "list_all is_running (pool_threads w) \<or> Empty (pool_tasks_buffer w)"
    by (simp_all add: pool_joining_def)
  note st = step_Ctl [OF assms(2) a(1)]
  show ?thesis
  proof (cases "i < length (pool_threads w)")
    case False
    with a(4) have "take i (pool_threads w) = pool_threads w" by simp
    with a(5) have nr: "\<not> list_ex is_running (pool_threads w)" by simp
    with a(3,6) have "Empty (pool_tasks_buffer w)"
      using no_running_not_all by blast
    then have "pool_joined R (step w Ctl)"
      using False nr a(2) by (simp add: st or_stay_def pool_joined_def)
    then show ?thesis by blast
  next
    case True
    show ?thesis
    proof (cases "pool_threads w ! i")
      case NotAThread
      then have "crashed (step w Ctl)"
        using True a(1) by (simp add: st or_stay_def crashed_def)
      then show ?thesis by blast
    next
      case (Running p)
      then have "step w Ctl = w" using True by (simp add: st or_stay_def)
      then show ?thesis using assms(1) by simp
    next
      case Finished
      from a(6) not_all_running [OF True Finished]
      have "Empty (pool_tasks_buffer w)" by blast
      then have "pool_joining R (Suc i) (step w Ctl)"
        using True Finished a(2,3) no_running_take_Suc [OF a(5) True]
        by (simp add: st or_stay_def pool_joining_def)
      then show ?thesis by blast
    qed
  qed
qed

lemma pool_joined_Ctl:
  assumes "pool_joined R w" "halted w = None" "list_all teardown_stmt R"
  shows "pool_cleared (step w Ctl)"
proof -
  from assms(1) have a: "todo w = Pool_Shutdown_clear # R" "pool_break w"
    "Empty (pool_tasks_buffer w)"
    by (simp_all add: pool_joined_def)
  show ?thesis
    using a assms(3) by (simp add: step_Ctl [OF assms(2) a(1)] or_stay_def pool_cleared_def)
qed

lemma pool_cleared_Ctl:
  assumes "pool_cleared w" "halted w = None" "event_loop_thread w = NotAThread"
  shows "pool_cleared (step w Ctl) \<and> halted (step w Ctl) = None \<and>
         event_loop_thread (step w Ctl) = NotAThread"
proof (cases "todo w")
  case Nil
  then show ?thesis using assms by (simp add: step_Ctl_Nil)
next
  case (Cons s rest)
  from assms(1) Cons have a: "teardown_stmt s" "list_all teardown_stmt rest" "pool_break w"
    "pool_threads w = []" "Empty (pool_tasks_buffer w)"
    by (simp_all add: pool_cleared_def)
  show ?thesis
    using a assms(2,3)
    by (cases s) (simp_all add: step_Ctl [OF assms(2) Cons] or_stay_def pool_cleared_def)
qed

lemma ctl_frame_teardown:
  assumes "halted w = None" "todo w = s # rest" "teardown_stmt s"
  shows "tasks (step w Ctl) = tasks w \<and> tasks_buffer (step w Ctl) = tasks_buffer w \<and>
         (break_flag w \<longrightarrow> break_flag (step w Ctl))"
  using assms(3)
  by (cases s)
     (auto simp: step_Ctl [OF assms(1,2)] or_stay_def split: thread.splits)

lemma pool_down_todo:
  assumes "pool_down R w" "list_all teardown_stmt R" "todo w = s # rest"
  shows "teardown_stmt s"
  using assms
  by (auto simp: pool_down_def pool_stopping_def pool_joining_def pool_joined_def
      pool_cleared_def)

lemma pool_down_Ctl:
  assumes "pool_down R w" "list_all teardown_stmt R"
  shows "pool_shutting_down R (step w Ctl)"
proof -
  from assms(1) have h: "halted w = None" "event_loop_thread w = NotAThread"
    by (simp_all add: pool_down_def)
  from assms(1) consider (C) "pool_stopping R w" | (D) i where "pool_joining R i w"
    | (E) "pool_joined R w" | (F) "pool_cleared w"
    by (auto simp: pool_down_def)
  then show ?thesis
  proof cases
    case C
    from pool_stopping_Ctl [OF C h(1)] h show ?thesis
      by (auto simp: pool_shutting_down_def pool_down_def)
  next
    case D
    have fr: "halted (step w Ctl) = None \<Longrightarrow> event_loop_thread (step w Ctl) = NotAThread"
    proof -
      from D have t: "todo w = Pool_Shutdown_join i # Pool_Shutdown_clear # R"
        by (simp add: pool_joining_def)
      show ?thesis
        using h by (auto simp: step_Ctl [OF h(1) t] or_stay_def split: thread.splits)
    qed
    from pool_joining_Ctl [OF D h(1)] show ?thesis
    proof (cases "halted (step w Ctl) = None")
      case True
      with fr \<open>crashed (step w Ctl) \<or> pool_joining R i (step w Ctl) \<or>
         pool_joining R (Suc i) (step w Ctl) \<or> pool_joined R (step w Ctl)\<close>
      show ?thesis by (auto simp: pool_shutting_down_def pool_down_def crashed_def)
    next
      case False
      moreover have "todo (step w Ctl) \<noteq> []"
        using \<open>crashed (step w Ctl) \<or> pool_joining R i (step w Ctl) \<or>
         pool_joining R (Suc i) (step w Ctl) \<or> pool_joined R (step w Ctl)\<close>
        by (auto simp: crashed_def pool_joining_def pool_joined_def)
      ultimately show ?thesis by (simp add: pool_shutting_down_def crashed_def)
    qed
  next
    case E
    then have t: "todo w = Pool_Shutdown_clear # R" by (simp add: pool_joined_def)
    have "halted (step w Ctl) = None \<and> event_loop_thread (step w Ctl) = NotAThread"
      using h by (simp add: step_Ctl [OF h(1) t] or_stay_def)
    with pool_joined_Ctl [OF E h(1) assms(2)] show ?thesis
      by (simp add: pool_shutting_down_def pool_down_def)
  next
    case F
    from pool_cleared_Ctl [OF F h] show ?thesis
      by (simp add: pool_shutting_down_def pool_down_def)
  qed
qed

lemma pool_shutting_down_step:
  assumes "pool_shutting_down R w" "list_all teardown_stmt R" "\<not> is_Api e"
  shows "pool_shutting_down R (step w e)"
proof (cases "crashed w")
  case True
  then show ?thesis using assms(1) by (simp add: crashed_stays)
next
  case False
  with assms(1) have pd: "pool_down R w" by (simp add: pool_shutting_down_def)
  then have "\<not> is_running (event_loop_thread w)" by (simp add: pool_down_def)
  then show ?thesis
    using assms(3) pd pool_down_Worker [OF pd] pool_down_Ctl [OF pd assms(2)]
    by (cases e) (simp_all add: step_Loop_not_running pool_shutting_down_def)
qed


subsection \<open>The shutdown of a running scheduler\<close>

lemma loop_frame:
  assumes "loop_pc_step now p w = Some w'"
  shows "todo w' = todo w \<and> pool_break w' = pool_break w \<and> break_flag w' = break_flag w \<and>
         pool_threads w' = pool_threads w"
  using assms
  by (cases p) (auto split: outcome.splits prod.splits)

lemma loop_body_step:
  assumes "loop_pc_step now p w = Some w'" "halted w' = None" "p \<noteq> L_guard_buffer"
    "p = L_guard \<longrightarrow> \<not> break_flag w \<or> tasks w \<noteq> []"
  shows "is_running (event_loop_thread w') \<and> event_loop_thread w' \<noteq> Running L_guard_buffer"
  using assms
  by (cases p) (auto split: outcome.splits prod.splits if_splits)

lemma loop_guard_step:
  assumes "loop_pc_step now L_guard w = Some w'" "break_flag w" "tasks w = []"
  shows "event_loop_thread w' = Running L_guard_buffer \<and> tasks w' = [] \<and>
         tasks_buffer w' = tasks_buffer w \<and> halted w' = halted w"
  using assms by auto

lemma loop_guard_buffer_step:
  assumes "loop_pc_step now L_guard_buffer w = Some w'" "tasks w = []"
  shows "(if event_loop_thread w' = Finished then tasks w' = [] \<and> Empty (tasks_buffer w')
          else is_running (event_loop_thread w') \<and>
               event_loop_thread w' \<noteq> Running L_guard_buffer) \<and>
         halted w' = halted w"
  using assms by (auto split: if_splits)

lemma workers_active_cong:
  "pool_threads w' = pool_threads w \<Longrightarrow> workers_active w \<Longrightarrow> workers_active w'"
  by (simp add: workers_active_def)

lemma loop_stopping_Loop:
  assumes "loop_stopping R w"
  shows "crashed (step w (Loop now)) \<or> loop_stopping R (step w (Loop now))"
proof -
  from assms obtain p where p: "event_loop_thread w = Running p" "p \<noteq> L_guard_buffer"
    and h: "halted w = None" and nb: "\<not> break_flag w"
    by (cases "event_loop_thread w") (auto simp: loop_stopping_def)
  show ?thesis
  proof (cases "loop_pc_step now p w")
    case None
    then show ?thesis using assms by (simp add: step_Loop [OF h p(1)] or_stay_def)
  next
    case (Some w')
    then have w': "step w (Loop now) = w'" by (simp add: step_Loop [OF h p(1)] or_stay_def)
    note fr = loop_frame [OF Some]
    show ?thesis
    proof (cases "halted w' = None")
      case True
      have "workers_active w'"
        using fr assms by (simp add: loop_stopping_def workers_active_def)
      with loop_body_step [OF Some True p(2)] nb fr assms True
      have "loop_stopping R w'"
        by (simp add: loop_stopping_def)
      then show ?thesis using w' by simp
    next
      case False
      then show ?thesis using w' fr assms by (simp add: crashed_def loop_stopping_def)
    qed
  qed
qed

lemma loop_stopping_Worker:
  assumes "loop_stopping R w"
  shows "crashed (step w (Worker j)) \<or> loop_stopping R (step w (Worker j))"
proof -
  from assms have h: "halted w = None" and a: "workers_active w" "\<not> pool_break w"
    by (simp_all add: loop_stopping_def)
  show ?thesis
  proof (cases "worker_step j w")
    case None
    then show ?thesis using assms by (simp add: step_Worker [OF h] or_stay_def)
  next
    case (Some w')
    then have w': "step w (Worker j) = w'" by (simp add: step_Worker [OF h] or_stay_def)
    note fr = worker_frame [OF Some]
    show ?thesis
    proof (cases "halted w' = None")
      case True
      from worker_active [OF a Some True] fr assms True
      have "loop_stopping R w'" by (simp add: loop_stopping_def)
      then show ?thesis using w' by simp
    next
      case False
      then show ?thesis using w' fr assms by (simp add: crashed_def loop_stopping_def)
    qed
  qed
qed

lemma loop_stopping_Ctl:
  assumes "loop_stopping R w"
  shows "loop_joining R (step w Ctl)"
proof -
  from assms have h: "halted w = None"
    and t: "todo w = Shutdown_break # Shutdown_join # Pool_Shutdown_break #
               Pool_Shutdown_join 0 # Pool_Shutdown_clear # R"
    by (simp_all add: loop_stopping_def)
  have "event_loop_thread w \<noteq> Finished"
    using assms by (auto simp: loop_stopping_def)
  then show ?thesis
    using assms
    by (simp add: step_Ctl [OF h t] or_stay_def loop_stopping_def loop_joining_def
        workers_active_def)
qed

lemma loop_joining_Loop:
  assumes "loop_joining R w"
  shows "crashed (step w (Loop now)) \<or> loop_joining R (step w (Loop now))"
proof (cases "event_loop_thread w")
  case NotAThread
  then show ?thesis using assms by (simp add: step_Loop_not_running)
next
  case Finished
  then show ?thesis using assms by (simp add: step_Loop_not_running)
next
  case (Running p)
  from assms have h: "halted w = None" and b: "break_flag w"
    and g: "p = L_guard_buffer \<longrightarrow> tasks w = []"
    using Running by (simp_all add: loop_joining_def)
  show ?thesis
  proof (cases "loop_pc_step now p w")
    case None
    then show ?thesis using assms by (simp add: step_Loop [OF h Running] or_stay_def)
  next
    case (Some w')
    then have w': "step w (Loop now) = w'" by (simp add: step_Loop [OF h Running] or_stay_def)
    note fr = loop_frame [OF Some]
    show ?thesis
    proof (cases "halted w' = None")
      case False
      then show ?thesis using w' fr assms by (simp add: crashed_def loop_joining_def)
    next
      case True
      have "if event_loop_thread w' = Finished then tasks w' = [] \<and> Empty (tasks_buffer w')
            else is_running (event_loop_thread w') \<and>
                 (event_loop_thread w' \<noteq> Running L_guard_buffer \<or> tasks w' = [])"
      proof (cases "p = L_guard_buffer")
        case True
        with g Some loop_guard_buffer_step [of now w w'] show ?thesis by auto
      next
        case nb: False
        show ?thesis
        proof (cases "p = L_guard \<and> tasks w = []")
          case True
          with Some b loop_guard_step [of now w w'] show ?thesis by auto
        next
          case False
          then have "p = L_guard \<longrightarrow> \<not> break_flag w \<or> tasks w \<noteq> []" by simp
          from loop_body_step [OF Some True nb this] show ?thesis by auto
        qed
      qed
      moreover have "workers_active w'"
        using fr assms by (simp add: loop_joining_def workers_active_def)
      ultimately have "loop_joining R w'"
        using fr assms True by (simp add: loop_joining_def)
      then show ?thesis using w' by simp
    qed
  qed
qed

lemma loop_joining_Worker:
  assumes "loop_joining R w"
  shows "crashed (step w (Worker j)) \<or> loop_joining R (step w (Worker j))"
proof -
  from assms have h: "halted w = None" and a: "workers_active w" "\<not> pool_break w"
    by (simp_all add: loop_joining_def)
  show ?thesis
  proof (cases "worker_step j w")
    case None
    then show ?thesis using assms by (simp add: step_Worker [OF h] or_stay_def)
  next
    case (Some w')
    then have w': "step w (Worker j) = w'" by (simp add: step_Worker [OF h] or_stay_def)
    note fr = worker_frame [OF Some]
    show ?thesis
    proof (cases "halted w' = None")
      case True
      from worker_active [OF a Some True] fr assms True
      have "loop_joining R w'" by (auto simp: loop_joining_def split: if_splits)
      then show ?thesis using w' by simp
    next
      case False
      then show ?thesis using w' fr assms by (simp add: crashed_def loop_joining_def)
    qed
  qed
qed

lemma loop_joining_Ctl:
  assumes "loop_joining R w"
  shows "loop_joining R (step w Ctl) \<or> loop_joined R (step w Ctl)"
proof -
  from assms have h: "halted w = None"
    and t: "todo w = Shutdown_join # Pool_Shutdown_break #
               Pool_Shutdown_join 0 # Pool_Shutdown_clear # R"
    by (simp_all add: loop_joining_def)
  show ?thesis
  proof (cases "event_loop_thread w")
    case NotAThread
    then show ?thesis using assms by (simp add: loop_joining_def)
  next
    case (Running p)
    then have "step w Ctl = w" by (simp add: step_Ctl [OF h t] or_stay_def)
    then show ?thesis using assms by simp
  next
    case Finished
    then have "loop_joined R (step w Ctl)"
      using assms
      by (simp add: step_Ctl [OF h t] or_stay_def loop_joining_def loop_joined_def
          pool_down_def pool_stopping_def workers_active_def)
    then show ?thesis by simp
  qed
qed

lemma loop_joined_step:
  assumes "loop_joined R w" "list_all teardown_stmt R" "\<not> is_Api e"
  shows "crashed (step w e) \<or> loop_joined R (step w e)"
proof -
  from assms(1) have pd: "pool_down R w" and a: "break_flag w" "tasks w = []"
    "Empty (tasks_buffer w)"
    by (simp_all add: loop_joined_def)
  from pd have h: "halted w = None" "event_loop_thread w = NotAThread"
    by (simp_all add: pool_down_def)
  have "pool_shutting_down R w" using pd by (simp add: pool_shutting_down_def)
  from pool_shutting_down_step [OF this assms(2,3)]
  have ps: "crashed (step w e) \<or> pool_down R (step w e)"
    by (simp add: pool_shutting_down_def)
  have "tasks (step w e) = tasks w \<and> tasks_buffer (step w e) = tasks_buffer w \<and>
        (break_flag w \<longrightarrow> break_flag (step w e))"
  proof (cases e)
    case (Api c)
    then show ?thesis using assms(3) by simp
  next
    case Ctl
    show ?thesis
    proof (cases "todo w")
      case Nil
      then show ?thesis using Ctl by (simp add: step_Ctl_Nil)
    next
      case (Cons s rest)
      from ctl_frame_teardown [OF h(1) Cons pool_down_todo [OF pd assms(2) Cons]] Ctl
      show ?thesis by simp
    qed
  next
    case (Loop now)
    then show ?thesis using h by (simp add: step_Loop_not_running)
  next
    case (Worker j)
    show ?thesis
    proof (cases "worker_step j w")
      case None
      then show ?thesis using Worker h by (simp add: step_Worker or_stay_def)
    next
      case (Some w')
      from worker_frame [OF Some] show ?thesis
        using Worker h Some by (simp add: step_Worker or_stay_def)
    qed
  qed
  with ps a show ?thesis by (auto simp: loop_joined_def)
qed

lemma shutting_down_step:
  assumes "shutting_down R w" "list_all teardown_stmt R" "\<not> is_Api e"
  shows "shutting_down R (step w e)"
proof -
  from assms(1) consider (X) "crashed w" | (A) "loop_stopping R w" | (B) "loop_joining R w"
    | (C) "loop_joined R w"
    by (auto simp: shutting_down_def)
  then show ?thesis
  proof cases
    case X
    then show ?thesis using assms(1) by (simp add: crashed_stays)
  next
    case A
    from assms(3) loop_stopping_Loop [OF A] loop_stopping_Worker [OF A] loop_stopping_Ctl [OF A]
    show ?thesis by (cases e) (auto simp: shutting_down_def)
  next
    case B
    from assms(3) loop_joining_Loop [OF B] loop_joining_Worker [OF B] loop_joining_Ctl [OF B]
    show ?thesis by (cases e) (auto simp: shutting_down_def)
  next
    case C
    from loop_joined_step [OF C assms(2,3)] show ?thesis by (auto simp: shutting_down_def)
  qed
qed

lemma execute_Cons: "execute w (e # es) = execute (step w e) es"
  by (simp add: execute_def)

lemma shutting_down_execute:
  assumes "shutting_down R w" "list_all teardown_stmt R" "\<not> list_ex is_Api es"
  shows "shutting_down R (execute w es)"
  using assms
proof (induction es arbitrary: w)
  case Nil
  then show ?case by (simp add: execute_def)
next
  case (Cons e es)
  then show ?case by (simp add: execute_Cons shutting_down_step)
qed

lemma pool_shutting_down_execute:
  assumes "pool_shutting_down R w" "list_all teardown_stmt R" "\<not> list_ex is_Api es"
  shows "pool_shutting_down R (execute w es)"
  using assms
proof (induction es arbitrary: w)
  case Nil
  then show ?case by (simp add: execute_def)
next
  case (Cons e es)
  then show ?case by (simp add: execute_Cons pool_shutting_down_step)
qed

lemma pool_down_returned:
  assumes "pool_shutting_down R w" "todo w = []"
  shows "halted w = None \<and> event_loop_thread w = NotAThread \<and> pool_threads w = [] \<and>
         Empty (pool_tasks_buffer w) \<and> pool_break w"
  using assms
  by (auto simp: pool_shutting_down_def crashed_def pool_down_def pool_stopping_def
      pool_joining_def pool_joined_def pool_cleared_def)

lemma shutting_down_returned:
  assumes "shutting_down R w" "todo w = []"
  shows "drained w \<and> stopped w"
proof -
  from assms have "loop_joined R w"
    by (auto simp: shutting_down_def crashed_def loop_stopping_def loop_joining_def)
  then have "pool_shutting_down R w" "break_flag w" "tasks w = []" "Empty (tasks_buffer w)"
    by (simp_all add: loop_joined_def pool_shutting_down_def)
  with pool_down_returned [OF this(1) assms(2)] assms(2)
  show ?thesis by (simp add: drained_def stopped_def idle_def)
qed

lemma running_Shutdown:
  assumes "running w"
  shows "loop_stopping [] (step w (Api Shutdown))"
  using assms by (simp add: running_def step_Api loop_stopping_def workers_active_def)

lemma running_Destroy:
  assumes "running w"
  shows "loop_stopping [Pool_Shutdown_break, Pool_Shutdown_join 0, Pool_Shutdown_clear,
                        Thread_destroy] (step w (Api Destroy))"
  using assms by (simp add: running_def step_Api loop_stopping_def workers_active_def)

lemma pool_running_Shutdown:
  assumes "pool_running w"
  shows "pool_down [] (step w (Api Pool_Shutdown))"
  using assms by (simp add: pool_running_def step_Api pool_down_def pool_stopping_def
      workers_active_def)


subsection \<open>When the loops are left\<close>





lemma example_shutdown_eq:
  "execute example_running (Api Shutdown # example_shutdown) =
     \<lparr>break_flag = True, event_loop_thread = NotAThread, tasks = [],
      tasks_buffer =
        \<lparr>read_counter = 1, write_counter = 1,
         buf = [\<lparr>timestamp = 5, func = ''f''\<rparr>, \<lparr>timestamp = 0, func = []\<rparr>],
         max_size = 2, mutex_read = False\<rparr>,
      threads_amount = 1, pool_threads = [],
      pool_tasks_buffer =
        \<lparr>read_counter = 1, write_counter = 1, buf = [''f'', []], max_size = 2,
         mutex_read = False\<rparr>,
      pool_break = True, todo = [], halted = None, handed_over = [''f''],
      executed = [''f''], joins = 2\<rparr>"
  by code_simp

lemma example_running_running: "running example_running"
  by code_simp

lemma example_shutdown_no_Api: "\<not> list_ex is_Api example_shutdown"
  by code_simp




subsection \<open>Destructors\<close>

lemma execute_append: "execute w (es @ fs) = execute (execute w es) fs"
  by (simp add: execute_def)

lemma execute_Nil: "execute w [] = w"
  by (simp add: execute_def)

lemma idle_Destroy:
  assumes "idle w"
  shows "execute w (Api Destroy # replicate 9 Ctl) = w\<lparr>break_flag := True, pool_break := True\<rparr>"
  using assms
  by (intro world.equality)
     (simp_all add: idle_def eval_nat_numeral execute_Cons execute_Nil step.simps ctl_step_def
        or_stay_def)

lemma idle_Shutdown:
  assumes "idle w"
  shows "execute w (Api Shutdown # replicate 5 Ctl) = w\<lparr>break_flag := True, pool_break := True\<rparr>"
  using assms
  by (intro world.equality)
     (simp_all add: idle_def eval_nat_numeral execute_Cons execute_Nil step.simps ctl_step_def
        or_stay_def)

lemma idle_Pool_Shutdown:
  assumes "idle w"
  shows "execute w (Api Pool_Shutdown # replicate 3 Ctl) = w\<lparr>pool_break := True\<rparr>"
  using assms
  by (intro world.equality)
     (simp_all add: idle_def eval_nat_numeral execute_Cons execute_Nil step.simps ctl_step_def
        or_stay_def)

text \<open>
  C9. The destructor of a \<^verbatim>\<open>Scheduler\<close> executes the statements of \<^verbatim>\<open>Shutdown\<close> (then those
  of the destructor of the pool, which are \<^verbatim>\<open>ThreadPool::Shutdown\<close>, and the destructor of
  the thread handle). The destruction of a running scheduler returns only when the loop
  thread and the workers have returned and been joined and all work has been drained;
  the destruction of a running pool returns only when its workers have returned and its
  queue is empty. The destruction of an idle instance runs to its end by the steps of
  the controlling thread alone and changes nothing but the stop flags: no thread is
  joined.
\<close>

theorem destructors_shut_down:
  "statements Destroy = statements Shutdown @ statements Pool_Shutdown @ [Thread_destroy] \<and>
   (running w \<and> \<not> list_ex is_Api es \<and> todo (execute w (Api Destroy # es)) = [] \<longrightarrow>
      drained (execute w (Api Destroy # es)) \<and> halted (execute w (Api Destroy # es)) = None) \<and>
   (pool_running w \<and> \<not> list_ex is_Api es \<and>
    todo (execute w (Api Pool_Shutdown # es)) = [] \<longrightarrow>
      pool_threads (execute w (Api Pool_Shutdown # es)) = [] \<and>
      Empty (pool_tasks_buffer (execute w (Api Pool_Shutdown # es))) \<and>
      halted (execute w (Api Pool_Shutdown # es)) = None) \<and>
   (idle w \<longrightarrow>
      execute w (Api Destroy # replicate 9 Ctl) = w\<lparr>break_flag := True, pool_break := True\<rparr> \<and>
      execute w (Api Pool_Shutdown # replicate 3 Ctl) = w\<lparr>pool_break := True\<rparr>)"
proof -
  let ?R = "[Pool_Shutdown_break, Pool_Shutdown_join 0, Pool_Shutdown_clear, Thread_destroy]"
  have r: "list_all teardown_stmt ?R" by simp
  have "drained (execute w (Api Destroy # es)) \<and> halted (execute w (Api Destroy # es)) = None"
    if a: "running w" "\<not> list_ex is_Api es" "todo (execute w (Api Destroy # es)) = []"
  proof -
    have "shutting_down ?R (step w (Api Destroy))"
      using running_Destroy [OF a(1)] by (simp add: shutting_down_def)
    then have "shutting_down ?R (execute w (Api Destroy # es))"
      using a(2) r shutting_down_execute [of ?R "step w (Api Destroy)" es]
      by (simp add: execute_Cons)
    from shutting_down_returned [OF this a(3)] show ?thesis
      by (simp add: stopped_def idle_def)
  qed
  moreover have "pool_threads (execute w (Api Pool_Shutdown # es)) = [] \<and>
      Empty (pool_tasks_buffer (execute w (Api Pool_Shutdown # es))) \<and>
      halted (execute w (Api Pool_Shutdown # es)) = None"
    if a: "pool_running w" "\<not> list_ex is_Api es"
      "todo (execute w (Api Pool_Shutdown # es)) = []"
  proof -
    have "pool_shutting_down [] (step w (Api Pool_Shutdown))"
      using pool_running_Shutdown [OF a(1)] by (simp add: pool_shutting_down_def)
    then have "pool_shutting_down [] (execute w (Api Pool_Shutdown # es))"
      using a(2) by (simp add: execute_Cons pool_shutting_down_execute)
    from pool_down_returned [OF this a(3)] show ?thesis by simp
  qed
  ultimately show ?thesis
    using idle_Destroy [of w] idle_Pool_Shutdown [of w] by auto
qed

subsection \<open>Repeated calls\<close>

lemma spawn_loop:
  assumes "halted w = None" "todo w = Pool_Run_spawn i # rest" "k = threads_amount w - i"
    "i \<le> threads_amount w"
  shows "execute w (replicate (Suc k) Ctl) =
           w\<lparr>pool_threads := pool_threads w @ replicate k (Running W_guard), todo := rest\<rparr>"
  using assms
proof (induction k arbitrary: w i)
  case 0
  then show ?case
    by (simp add: execute_Cons execute_Nil step_Ctl or_stay_def)
next
  case (Suc k)
  let ?w1 = "w\<lparr>pool_threads := pool_threads w @ [Running W_guard],
                todo := Pool_Run_spawn (Suc i) # rest\<rparr>"
  from Suc.prems have lt: "i < threads_amount w" by simp
  have s1: "step w Ctl = ?w1"
    using lt by (simp add: step_Ctl [OF Suc.prems(1,2)] or_stay_def)
  have "execute ?w1 (replicate (Suc k) Ctl) =
          ?w1\<lparr>pool_threads := pool_threads ?w1 @ replicate k (Running W_guard), todo := rest\<rparr>"
    using Suc.prems by (intro Suc.IH [where i = "Suc i"]) simp_all
  then show ?case
    using s1 by (simp add: execute_Cons replicate_append_same)
qed

lemma idle_Run:
  assumes "idle w"
  shows "execute w (Api Run # replicate (4 + threads_amount w) Ctl) =
           w\<lparr>break_flag := False, event_loop_thread := Running L_guard, pool_break := False,
             pool_threads := replicate (threads_amount w) (Running W_guard)\<rparr>"
proof -
  let ?w3 = "w\<lparr>break_flag := False, event_loop_thread := Running L_guard,
                pool_break := False, todo := [Pool_Run_spawn 0]\<rparr>"
  have r: "replicate (4 + threads_amount w) Ctl =
           [Ctl, Ctl, Ctl] @ replicate (Suc (threads_amount w)) Ctl"
    by (simp add: eval_nat_numeral)
  have "execute w (Api Run # [Ctl, Ctl, Ctl]) = ?w3"
    using assms
    by (intro world.equality)
       (simp_all add: idle_def execute_Cons execute_Nil step.simps ctl_step_def or_stay_def)
  moreover have "execute ?w3 (replicate (Suc (threads_amount w)) Ctl) =
      ?w3\<lparr>pool_threads := pool_threads ?w3 @ replicate (threads_amount w) (Running W_guard),
          todo := []\<rparr>"
    using assms by (intro spawn_loop [where i = 0]) (simp_all add: idle_def)
  ultimately have "execute w (Api Run # replicate (4 + threads_amount w) Ctl) =
      ?w3\<lparr>pool_threads := pool_threads ?w3 @ replicate (threads_amount w) (Running W_guard),
          todo := []\<rparr>"
    unfolding r using execute_append [of w "Api Run # [Ctl, Ctl, Ctl]"] by simp
  then show ?thesis
    using assms by (intro world.equality) (simp_all add: idle_def)
qed

lemma Pool_Run_adds:
  assumes "halted w = None" "todo w = []"
  shows "pool_threads (execute w (Api Pool_Run # replicate (2 + threads_amount w) Ctl)) =
           pool_threads w @ replicate (threads_amount w) (Running W_guard)"
proof -
  let ?w1 = "w\<lparr>pool_break := False, todo := [Pool_Run_spawn 0]\<rparr>"
  have r: "replicate (2 + threads_amount w) Ctl = [Ctl] @ replicate (Suc (threads_amount w)) Ctl"
    by (simp add: eval_nat_numeral)
  have "execute w (Api Pool_Run # [Ctl]) = ?w1"
    using assms
    by (intro world.equality)
       (simp_all add: execute_Cons execute_Nil step.simps ctl_step_def or_stay_def)
  moreover have "execute ?w1 (replicate (Suc (threads_amount w)) Ctl) =
      ?w1\<lparr>pool_threads := pool_threads ?w1 @ replicate (threads_amount w) (Running W_guard),
          todo := []\<rparr>"
    using assms by (intro spawn_loop [where i = 0]) simp_all
  ultimately show ?thesis
    unfolding r using execute_append [of w "Api Pool_Run # [Ctl]"] by simp
qed

lemma running_Run:
  assumes "running w"
  shows "halted (execute w [Api Run, Ctl, Ctl]) = Some Terminated"
proof -
  from assms obtain p where "event_loop_thread w = Running p"
    by (cases "event_loop_thread w") (auto simp: running_def)
  then show ?thesis
    using assms
    by (simp add: running_def execute_Cons execute_Nil step.simps ctl_step_def or_stay_def)
qed

lemma stopped_Shutdown:
  assumes "stopped w"
  shows "execute w (Api Shutdown # replicate 5 Ctl) = w"
  using assms idle_Shutdown [of w]
  by (simp add: stopped_def)

text \<open>
  C8, amended. \<^verbatim>\<open>Shutdown\<close> is idempotent: \<^verbatim>\<open>Shutdown\<close> on a running scheduler leaves it
  stopped and drained, and \<^verbatim>\<open>Shutdown\<close> on a stopped scheduler changes nothing. \<^verbatim>\<open>Run\<close> on an
  idle scheduler, which a fresh one and a stopped one both are, clears both stop flags
  and starts the loop thread and \<^verbatim>\<open>threads_amount_\<close> workers, so a cycle of \<^verbatim>\<open>Shutdown\<close> and
  \<^verbatim>\<open>Run\<close> leaves flags and threads as \<^verbatim>\<open>Run\<close> leaves those of a fresh instance (the counters
  of the buffers are not reset). \<^verbatim>\<open>Run\<close> is not idempotent: on a running scheduler it ends
  the process with \<^verbatim>\<open>std::terminate\<close>, and \<^verbatim>\<open>ThreadPool::Run\<close> adds \<^verbatim>\<open>threads_amount_\<close> workers
  to those the pool has.
\<close>

theorem repeated_Shutdown_and_Run:
  "(stopped w \<longrightarrow> execute w (Api Shutdown # replicate 5 Ctl) = w) \<and>
   (running w \<and> \<not> list_ex is_Api es \<and> todo (execute w (Api Shutdown # es)) = [] \<longrightarrow>
      stopped (execute w (Api Shutdown # es)) \<and> drained (execute w (Api Shutdown # es))) \<and>
   (idle w \<longrightarrow>
      execute w (Api Run # replicate (4 + threads_amount w) Ctl) =
        w\<lparr>break_flag := False, event_loop_thread := Running L_guard, pool_break := False,
          pool_threads := replicate (threads_amount w) (Running W_guard)\<rparr>) \<and>
   idle (new_Scheduler sz n nofunc) \<and>
   (running w \<longrightarrow> halted (execute w [Api Run, Ctl, Ctl]) = Some Terminated) \<and>
   (halted w = None \<and> todo w = [] \<longrightarrow>
      pool_threads (execute w (Api Pool_Run # replicate (2 + threads_amount w) Ctl)) =
        pool_threads w @ replicate (threads_amount w) (Running W_guard))"
proof -
  have "stopped (execute w (Api Shutdown # es)) \<and> drained (execute w (Api Shutdown # es))"
    if a: "running w" "\<not> list_ex is_Api es" "todo (execute w (Api Shutdown # es)) = []"
  proof -
    have "shutting_down [] (step w (Api Shutdown))"
      using running_Shutdown [OF a(1)] by (simp add: shutting_down_def)
    then have "shutting_down [] (execute w (Api Shutdown # es))"
      using a(2) by (simp add: execute_Cons shutting_down_execute)
    from shutting_down_returned [OF this a(3)] show ?thesis by simp
  qed
  moreover have "idle (new_Scheduler sz n nofunc)"
    by (simp add: idle_def new_Scheduler_def)
  ultimately show ?thesis
    using stopped_Shutdown [of w] idle_Run [of w] running_Run [of w] Pool_Run_adds [of w]
    by blast
qed


lemma example_pool_running_running: "pool_running example_pool_running"
  by code_simp

lemma example_pool_shutdown_no_Api: "\<not> list_ex is_Api example_pool_shutdown"
  by code_simp

lemma example_destroy_returns:
  "todo (execute example_running (Api Destroy # example_shutdown @ replicate 4 Ctl)) = [] \<and>
   executed (execute example_running (Api Destroy # example_shutdown @ replicate 4 Ctl)) =
     [''f''] \<and>
   joins (execute example_running (Api Destroy # example_shutdown @ replicate 4 Ctl)) = 2"
  by code_simp

lemma example_destroy_no_Api: "\<not> list_ex is_Api (example_shutdown @ replicate 4 Ctl)"
  by code_simp

lemma example_pool_shutdown_returns:
  "todo (execute example_pool_running (Api Pool_Shutdown # example_pool_shutdown)) = [] \<and>
   executed (execute example_pool_running (Api Pool_Shutdown # example_pool_shutdown)) =
     [''g'']"
  by code_simp

lemma example_added_idle: "idle example_added"
  by code_simp

theorem destructors_shut_down_witness:
  "running example_running \<and> \<not> list_ex is_Api (example_shutdown @ replicate 4 Ctl) \<and>
   todo (execute example_running (Api Destroy # example_shutdown @ replicate 4 Ctl)) = [] \<and>
   drained (execute example_running (Api Destroy # example_shutdown @ replicate 4 Ctl)) \<and>
   executed (execute example_running (Api Destroy # example_shutdown @ replicate 4 Ctl)) =
     [''f''] \<and>
   pool_running example_pool_running \<and> \<not> list_ex is_Api example_pool_shutdown \<and>
   todo (execute example_pool_running (Api Pool_Shutdown # example_pool_shutdown)) = [] \<and>
   pool_threads (execute example_pool_running (Api Pool_Shutdown # example_pool_shutdown)) =
     [] \<and>
   Empty (pool_tasks_buffer
     (execute example_pool_running (Api Pool_Shutdown # example_pool_shutdown))) \<and>
   idle example_added \<and>
   joins (execute example_added (Api Destroy # replicate 9 Ctl)) = joins example_added \<and>
   todo (execute example_added (Api Destroy # replicate 9 Ctl)) = []"
  using
    destructors_shut_down [of example_running "example_shutdown @ replicate 4 Ctl"]
    destructors_shut_down [of example_pool_running example_pool_shutdown]
    destructors_shut_down [of example_added]
    example_running_running example_destroy_no_Api example_destroy_returns
    example_pool_running_running example_pool_shutdown_no_Api example_pool_shutdown_returns
    example_added_idle
  by (simp add: idle_def)

theorem repeated_Shutdown_and_Run_witness:
  "stopped (execute example_running (Api Shutdown # example_shutdown)) \<and>
   execute (execute example_running (Api Shutdown # example_shutdown))
     (Api Shutdown # replicate 5 Ctl) =
     execute example_running (Api Shutdown # example_shutdown) \<and>
   running example_running \<and> \<not> list_ex is_Api example_shutdown \<and>
   todo (execute example_running (Api Shutdown # example_shutdown)) = [] \<and>
   idle example_added \<and>
   event_loop_thread (execute example_added (Api Run # replicate (4 + 1) Ctl)) =
     Running L_guard \<and>
   halted (execute example_running [Api Run, Ctl, Ctl]) = Some Terminated \<and>
   pool_threads (execute example_running (Api Pool_Run # replicate (2 + 1) Ctl)) =
     [Running W_guard, Running W_guard]"
proof -
  have t: "threads_amount example_added = 1" "threads_amount example_running = 1"
    "halted example_running = None" "todo example_running = []"
    "pool_threads example_running = [Running W_guard]"
    by code_simp+
  have r: "todo (execute example_running (Api Shutdown # example_shutdown)) = []"
    by (simp add: example_shutdown_eq)
  from repeated_Shutdown_and_Run [of example_running example_shutdown 2 1 "[] :: string"]
    example_running_running example_shutdown_no_Api r
  have s: "stopped (execute example_running (Api Shutdown # example_shutdown))"
    by blast
  from repeated_Shutdown_and_Run
    [of "execute example_running (Api Shutdown # example_shutdown)" "[]" 2 1 "[] :: string"] s
  have a: "execute (execute example_running (Api Shutdown # example_shutdown))
     (Api Shutdown # replicate 5 Ctl) =
     execute example_running (Api Shutdown # example_shutdown)"
    by blast
  from repeated_Shutdown_and_Run [of example_added "[]" 2 1 "[] :: string"] example_added_idle
  have "execute example_added (Api Run # replicate (4 + threads_amount example_added) Ctl) =
     example_added\<lparr>break_flag := False, event_loop_thread := Running L_guard,
       pool_break := False,
       pool_threads := replicate (threads_amount example_added) (Running W_guard)\<rparr>"
    by blast
  then have b: "event_loop_thread (execute example_added (Api Run # replicate (4 + 1) Ctl)) =
     Running L_guard"
    by (simp add: t)
  from repeated_Shutdown_and_Run [of example_running "[]" 2 1 "[] :: string"]
    example_running_running
  have c: "halted (execute example_running [Api Run, Ctl, Ctl]) = Some Terminated"
    by blast
  from repeated_Shutdown_and_Run [of example_running "[]" 2 1 "[] :: string"] t(3,4)
  have "pool_threads (execute example_running
          (Api Pool_Run # replicate (2 + threads_amount example_running) Ctl)) =
        pool_threads example_running @
        replicate (threads_amount example_running) (Running W_guard)"
    by blast
  then have d: "pool_threads (execute example_running (Api Pool_Run # replicate (2 + 1) Ctl)) =
     [Running W_guard, Running W_guard]"
    by (simp add: t)
  show ?thesis
    using a b c d r s example_running_running example_shutdown_no_Api example_added_idle
    by blast
qed

text \<open>
  C8 says that \<^verbatim>\<open>Run\<close> called twice in succession leaves the scheduler as a single call
  does, with no crash and no duplicated thread. The second \<^verbatim>\<open>Scheduler::Run\<close> assigns to
  the joinable handle of the loop thread, which is \<^verbatim>\<open>std::terminate\<close>; a second
  \<^verbatim>\<open>ThreadPool::Run\<close> on a pool of one worker leaves two workers.
\<close>

theorem Run_twice_terminates:
  "halted (execute (new_Scheduler 2 1 (''''::string)) (Api Run # replicate 5 Ctl)) = None \<and>
   todo (execute (new_Scheduler 2 1 (''''::string)) (Api Run # replicate 5 Ctl)) = [] \<and>
   halted (execute (new_Scheduler 2 1 (''''::string))
     (Api Run # replicate 5 Ctl @ Api Run # replicate 5 Ctl)) = Some Terminated \<and>
   execute (new_Scheduler 2 1 (''''::string))
     (Api Run # replicate 5 Ctl @ Api Run # replicate 5 Ctl)
     \<noteq> execute (new_Scheduler 2 1 (''''::string)) (Api Run # replicate 5 Ctl) \<and>
   length (pool_threads (execute (new_Scheduler 2 1 (''''::string))
     (Api Pool_Run # replicate 3 Ctl @ Api Pool_Run # replicate 3 Ctl))) = 2"
  by code_simp

end
